theory Spec2Isabelle
  imports Main
begin

section \<open>Text: characters, whitespace, lines\<close>

text \<open>
  Both parser modules open the documentation file with \<^verbatim>\<open>open(path, 'r', encoding='latin-1')\<close>.
  Latin-1 maps every byte to the code point of the same number, so the decoded text is a
  list of 8-bit characters: a \<^typ>\<open>string\<close>. The file's contents are the input of the model;
  opening and reading the file (and the I/O errors they can raise) are outside it.
\<close>

abbreviation TAB :: char where "TAB \<equiv> CHR 0x09"
abbreviation LF :: char where "LF \<equiv> CHR 0x0A"
abbreviation CR :: char where "CR \<equiv> CHR 0x0D"
abbreviation SPC :: char where "SPC \<equiv> CHR 0x20"

text \<open>
  Python's notion of whitespace for \<^verbatim>\<open>str.strip()\<close> and for \<^verbatim>\<open>\s\<close> in a \<^verbatim>\<open>str\<close> pattern
  is the same (\<^verbatim>\<open>Py_UNICODE_ISSPACE\<close>). Below code point 256 it holds of the characters
  9 to 13, 28 to 32, 133 and 160.
\<close>

definition isspace :: "char \<Rightarrow> bool" where
  "isspace c \<longleftrightarrow>
     c \<in> set [CHR 0x09, CHR 0x0A, CHR 0x0B, CHR 0x0C, CHR 0x0D,
               CHR 0x1C, CHR 0x1D, CHR 0x1E, CHR 0x1F, CHR 0x20, CHR 0x85, CHR 0xA0]"

text \<open>\<^verbatim>\<open>s.strip()\<close>: leading and trailing whitespace removed.\<close>

definition strip :: "string \<Rightarrow> string" where
  "strip s = rev (dropWhile isspace (rev (dropWhile isspace s)))"

text \<open>
  A file opened in text mode with the default \<^verbatim>\<open>newline=None\<close> translates \<^verbatim>\<open>\r\n\<close> and a
  lone \<^verbatim>\<open>\r\<close> to \<^verbatim>\<open>\n\<close> before the program sees the text.
\<close>

fun universal_newlines :: "string \<Rightarrow> string" where
  "universal_newlines [] = []"
| "universal_newlines [c] = [if c = CR then LF else c]"
| "universal_newlines (c # d # cs) =
     (if c = CR \<and> d = LF then LF # universal_newlines cs
      else if c = CR then LF # universal_newlines (d # cs)
      else c # universal_newlines (d # cs))"

text \<open>
  \<^verbatim>\<open>for line in f\<close> yields the lines of the text, each with its terminating \<^verbatim>\<open>\n\<close>; the last
  line has none when the text does not end with one.
\<close>

fun split_lines :: "string \<Rightarrow> string list" where
  "split_lines [] = []"
| "split_lines (c # cs) =
     (if c = LF then [LF] # split_lines cs
      else (case split_lines cs of
              [] \<Rightarrow> [[c]]
            | l # ls \<Rightarrow> (c # l) # ls))"

definition file_lines :: "string \<Rightarrow> string list" where
  "file_lines contents = split_lines (universal_newlines contents)"

section \<open>Regular expressions\<close>

text \<open>
  The patterns of the source are compiled with \<^verbatim>\<open>re.VERBOSE\<close> (whitespace and comments in
  the pattern text are ignored, except inside a character class) and applied with
  \<^verbatim>\<open>pattern.match(line)\<close>, which anchors the match at the start of the line and not at
  its end. They use literal characters, the classes \<^verbatim>\<open>[ ]\<close>, \<^verbatim>\<open>[^(]\<close>, \<^verbatim>\<open>[^\t]\<close> and \<^verbatim>\<open>\s\<close>,
  the greedy repetitions \<^verbatim>\<open>+\<close> and \<^verbatim>\<open>*\<close> of a class, \<^verbatim>\<open>{7}\<close>, alternation, sequence and
  named groups. The matcher below is a backtracking matcher for this fragment: it lists
  every way a pattern matches a prefix of the input, in the order in which Python's
  engine tries them (a greedy repetition longest first, an alternation left to right),
  and \<open>re_match\<close> takes the first.
\<close>

datatype atom =
    Lit char            \<comment> \<open>a literal character\<close>
  | InSet "char list"   \<comment> \<open>\<^verbatim>\<open>[...]\<close>\<close>
  | NotSet "char list"  \<comment> \<open>\<^verbatim>\<open>[^...]\<close>\<close>
  | Space               \<comment> \<open>\<^verbatim>\<open>\s\<close>\<close>

fun atom_ok :: "atom \<Rightarrow> char \<Rightarrow> bool" where
  "atom_ok (Lit x) c \<longleftrightarrow> c = x"
| "atom_ok (InSet xs) c \<longleftrightarrow> c \<in> set xs"
| "atom_ok (NotSet xs) c \<longleftrightarrow> c \<notin> set xs"
| "atom_ok Space c \<longleftrightarrow> isspace c"

datatype regex =
    Eps
  | Atom atom
  | Many0 atom               \<comment> \<open>greedy \<^verbatim>\<open>*\<close> of a class\<close>
  | Many1 atom               \<comment> \<open>greedy \<^verbatim>\<open>+\<close> of a class\<close>
  | Cat regex regex
  | Alt regex regex
  | Group string regex      \<comment> \<open>\<^verbatim>\<open>(?P<name>...)\<close>\<close>

type_synonym groups = "(string \<times> string) list"

text \<open>
  Every way of taking zero or more leading characters that satisfy \<open>p\<close>, as pairs of the
  text taken and the text left, the longest first.
\<close>

fun star_splits :: "(char \<Rightarrow> bool) \<Rightarrow> string \<Rightarrow> (string \<times> string) list" where
  "star_splits p [] = [([], [])]"
| "star_splits p (c # cs) =
     (if p c then map (\<lambda>(m, r). (c # m, r)) (star_splits p cs) else []) @ [([], c # cs)]"

text \<open>
  \<open>rmatch r s\<close>: the matches of \<open>r\<close> against a prefix of \<open>s\<close>, each with the groups it
  captured, the text it matched and the text left over.
\<close>

primrec rmatch :: "regex \<Rightarrow> string \<Rightarrow> (groups \<times> string \<times> string) list" where
  "rmatch Eps s = [([], [], s)]"
| "rmatch (Atom a) s =
     (case s of [] \<Rightarrow> [] | c # cs \<Rightarrow> if atom_ok a c then [([], [c], cs)] else [])"
| "rmatch (Many0 a) s = map (\<lambda>(m, r). ([], m, r)) (star_splits (atom_ok a) s)"
| "rmatch (Many1 a) s =
     map (\<lambda>(m, r). ([], m, r)) (filter (\<lambda>(m, r). m \<noteq> []) (star_splits (atom_ok a) s))"
| "rmatch (Cat r1 r2) s =
     concat (map (\<lambda>(g1, m1, s1). map (\<lambda>(g2, m2, s2). (g1 @ g2, m1 @ m2, s2)) (rmatch r2 s1))
                 (rmatch r1 s))"
| "rmatch (Alt r1 r2) s = rmatch r1 s @ rmatch r2 s"
| "rmatch (Group n r) s = map (\<lambda>(g, m, s'). (g @ [(n, m)], m, s')) (rmatch r s)"

text \<open>\<^verbatim>\<open>pattern.match(s)\<close>: the groups of the first match, or \<open>None\<close>.\<close>

definition re_match :: "regex \<Rightarrow> string \<Rightarrow> groups option" where
  "re_match r s = (case rmatch r s of [] \<Rightarrow> None | (g, m, s') # _ \<Rightarrow> Some g)"

primrec lits :: "string \<Rightarrow> regex" where
  "lits [] = Eps"
| "lits (c # cs) = Cat (Atom (Lit c)) (lits cs)"

primrec exactly :: "nat \<Rightarrow> regex \<Rightarrow> regex" where
  "exactly 0 r = Eps"
| "exactly (Suc n) r = Cat r (exactly n r)"

primrec seqs :: "regex list \<Rightarrow> regex" where
  "seqs [] = Eps"
| "seqs (r # rs) = Cat r (seqs rs)"

section \<open>Python values and errors\<close>

text \<open>
  The records the parser emits are dicts with string keys whose values are strings
  (\<^verbatim>\<open>'name'\<close>, \<^verbatim>\<open>'kind'\<close>) or lists of strings (\<^verbatim>\<open>'values'\<close>). A dict keeps its keys in
  insertion order; it is modelled as an association list with distinct keys.
\<close>

datatype pyval = Str string | StrList "string list"

type_synonym pydict = "(string \<times> pyval) list"

datatype error =
    UnboundLocalError     \<comment> \<open>a local variable read before any assignment\<close>
  | AttributeError        \<comment> \<open>\<^verbatim>\<open>m.group(g).strip()\<close> when the group took no part in the match\<close>
  | KeyError string       \<comment> \<open>\<^verbatim>\<open>d[k]\<close> for a missing key\<close>
  | TypeError             \<comment> \<open>an unhashable dict key\<close>

definition then_do :: "error + 'a \<Rightarrow> ('a \<Rightarrow> error + 'b) \<Rightarrow> error + 'b" where
  "then_do r f = (case r of Inl e \<Rightarrow> Inl e | Inr x \<Rightarrow> f x)"

text \<open>\<^verbatim>\<open>m.group(g).strip()\<close>\<close>

definition group_strip :: "groups \<Rightarrow> string \<Rightarrow> error + string" where
  "group_strip m g = (case map_of m g of None \<Rightarrow> Inl AttributeError | Some v \<Rightarrow> Inr (strip v))"

section \<open>parse\_variables.py\<close>

definition P_QUALITATIVE :: regex where
  "P_QUALITATIVE = seqs
     [Group ''name'' (Many1 (NotSet ''('')),
      Atom (Lit CHR ''(''),
      Group ''kind'' (Alt (lits ''Nominal'') (lits ''Ordinal'')),
      Atom (Lit CHR '')''), Many0 Space, Atom (Lit CHR '':'')]"

definition P_VALUE :: regex where
  "P_VALUE = seqs
     [exactly 7 (Atom (InSet '' '')),
      Group ''value'' (Many1 (NotSet [TAB])),
      Atom (Lit TAB)]"

definition P_QUANTITATIVE :: regex where
  "P_QUANTITATIVE = seqs
     [Group ''name'' (Many1 (NotSet ''('')),
      Atom (Lit CHR ''(''),
      Group ''kind'' (Alt (lits ''Discrete'') (lits ''Continuous'')),
      Atom (Lit CHR '')''), Many0 Space, Atom (Lit CHR '':'')]"

text \<open>
  The local variables of \<^verbatim>\<open>parse_definitions\<close>. \<^verbatim>\<open>name\<close> and \<^verbatim>\<open>kind\<close> are not assigned
  before the loop: \<open>None\<close> is the unbound variable.
\<close>

record locals =
  definitions :: "pydict list"
  in_definition :: bool
  vals :: "string list"          \<comment> \<open>the variable \<^verbatim>\<open>values\<close>\<close>
  name :: "string option"
  kind :: "string option"

definition init_locals :: locals where
  "init_locals = \<lparr>definitions = [], in_definition = False, vals = [], name = None, kind = None\<rparr>"

text \<open>The \<^verbatim>\<open>else\<close> branch of \<^verbatim>\<open>if m:\<close> under \<^verbatim>\<open>if in_definition:\<close>.\<close>

definition end_definition :: "locals \<Rightarrow> error + locals" where
  "end_definition s =
     (case name s of
        None \<Rightarrow> Inl UnboundLocalError
      | Some n \<Rightarrow>
          (case kind s of
             None \<Rightarrow> Inl UnboundLocalError
           | Some k \<Rightarrow>
               Inr (s\<lparr>definitions :=
                         definitions s @
                           [[(''name'', Str n), (''kind'', Str k), (''values'', StrList (vals s))]],
                       in_definition := False,
                       vals := []\<rparr>)))"

text \<open>The block under \<^verbatim>\<open>if in_definition:\<close>.\<close>

definition value_or_end :: "locals \<Rightarrow> string \<Rightarrow> error + locals" where
  "value_or_end s line =
     (case re_match P_VALUE line of
        Some m \<Rightarrow> then_do (group_strip m ''value'') (\<lambda>v. Inr (s\<lparr>vals := vals s @ [v]\<rparr>))
      | None \<Rightarrow> end_definition s)"

text \<open>The two \<^verbatim>\<open>if m:\<close> statements under \<^verbatim>\<open>if not in_definition:\<close>.\<close>

definition start_qualitative :: "locals \<Rightarrow> string \<Rightarrow> error + locals" where
  "start_qualitative s line =
     (case re_match P_QUALITATIVE line of
        Some m \<Rightarrow>
          then_do (group_strip m ''name'') (\<lambda>n.
          then_do (group_strip m ''kind'') (\<lambda>k.
            Inr (s\<lparr>name := Some n, kind := Some k, in_definition := True\<rparr>)))
      | None \<Rightarrow> Inr s)"

definition quantitative :: "locals \<Rightarrow> string \<Rightarrow> error + locals" where
  "quantitative s line =
     (case re_match P_QUANTITATIVE line of
        Some m \<Rightarrow>
          then_do (group_strip m ''name'') (\<lambda>n.
          then_do (group_strip m ''kind'') (\<lambda>k.
            Inr (s\<lparr>name := Some n, kind := Some k,
                    definitions := definitions s @ [[(''name'', Str n), (''kind'', Str k)]]\<rparr>)))
      | None \<Rightarrow> Inr s)"

text \<open>The block under \<^verbatim>\<open>if not in_definition:\<close>: both patterns are tried, one after the other.\<close>

definition headers :: "locals \<Rightarrow> string \<Rightarrow> error + locals" where
  "headers s line = then_do (start_qualitative s line) (\<lambda>s2. quantitative s2 line)"

text \<open>One iteration of \<^verbatim>\<open>for line in f\<close>.\<close>

definition loop_body :: "locals \<Rightarrow> string \<Rightarrow> error + locals" where
  "loop_body s line =
     (if length (strip line) = 0 then Inr s
      else
        then_do (if in_definition s then value_or_end s line else Inr s) (\<lambda>s1.
          if \<not> in_definition s1 then headers s1 line else Inr s1))"

fun for_lines :: "locals \<Rightarrow> string list \<Rightarrow> error + locals" where
  "for_lines s [] = Inr s"
| "for_lines s (line # rest) = then_do (loop_body s line) (\<lambda>s'. for_lines s' rest)"

text \<open>
  \<^verbatim>\<open>parse_definitions(path)\<close>: \<open>parse_lines\<close> is the function from the first statement to
  \<^verbatim>\<open>return definitions\<close> on the lines the file yields, \<open>parse_definitions\<close> the same on the
  contents of the file at \<^verbatim>\<open>path\<close>.
\<close>

definition parse_lines :: "string list \<Rightarrow> error + pydict list" where
  "parse_lines ls = then_do (for_lines init_locals ls) (\<lambda>s. Inr (definitions s))"

definition parse_definitions :: "string \<Rightarrow> error + pydict list" where
  "parse_definitions contents = parse_lines (file_lines contents)"

section \<open>qualitative\_variables.py\<close>

text \<open>
  The module's header pattern is named \<^verbatim>\<open>P_QUANTITATIVE\<close> in the source although it matches
  the qualitative kinds; it has no \<^verbatim>\<open>\s*\<close> between the closing parenthesis and the colon.
  The names of this module carry the prefix \<open>qv\<close>.
\<close>

definition qv_P_QUANTITATIVE :: regex where
  "qv_P_QUANTITATIVE = seqs
     [Group ''name'' (Many1 (NotSet ''('')),
      Atom (Lit CHR ''(''),
      Group ''kind'' (Alt (lits ''Nominal'') (lits ''Ordinal'')),
      Atom (Lit CHR '')''), Atom (Lit CHR '':'')]"

definition qv_P_VALUE :: regex where
  "qv_P_VALUE = seqs
     [exactly 7 (Atom (InSet '' '')),
      Group ''value'' (Many1 (NotSet [TAB])),
      Atom (Lit TAB)]"

definition qv_end_definition :: "locals \<Rightarrow> error + locals" where
  "qv_end_definition s =
     (case name s of
        None \<Rightarrow> Inl UnboundLocalError
      | Some n \<Rightarrow>
          (case kind s of
             None \<Rightarrow> Inl UnboundLocalError
           | Some k \<Rightarrow>
               Inr (s\<lparr>definitions :=
                         definitions s @
                           [[(''name'', Str n), (''kind'', Str k), (''values'', StrList (vals s))]],
                       in_definition := False,
                       vals := []\<rparr>)))"

definition qv_value_or_end :: "locals \<Rightarrow> string \<Rightarrow> error + locals" where
  "qv_value_or_end s line =
     (case re_match qv_P_VALUE line of
        Some m \<Rightarrow> then_do (group_strip m ''value'') (\<lambda>v. Inr (s\<lparr>vals := vals s @ [v]\<rparr>))
      | None \<Rightarrow> qv_end_definition s)"

definition qv_start_definition :: "locals \<Rightarrow> string \<Rightarrow> error + locals" where
  "qv_start_definition s line =
     (case re_match qv_P_QUANTITATIVE line of
        Some m \<Rightarrow>
          then_do (group_strip m ''name'') (\<lambda>n.
          then_do (group_strip m ''kind'') (\<lambda>k.
            Inr (s\<lparr>name := Some n, kind := Some k, in_definition := True\<rparr>)))
      | None \<Rightarrow> Inr s)"

definition qv_loop_body :: "locals \<Rightarrow> string \<Rightarrow> error + locals" where
  "qv_loop_body s line =
     (if length (strip line) = 0 then Inr s
      else
        then_do (if in_definition s then qv_value_or_end s line else Inr s) (\<lambda>s1.
          if \<not> in_definition s1 then qv_start_definition s1 line else Inr s1))"

fun qv_for_lines :: "locals \<Rightarrow> string list \<Rightarrow> error + locals" where
  "qv_for_lines s [] = Inr s"
| "qv_for_lines s (line # rest) = then_do (qv_loop_body s line) (\<lambda>s'. qv_for_lines s' rest)"

definition qv_parse_lines :: "string list \<Rightarrow> error + pydict list" where
  "qv_parse_lines ls = then_do (qv_for_lines init_locals ls) (\<lambda>s. Inr (definitions s))"

definition qv_parse_definitions :: "string \<Rightarrow> error + pydict list" where
  "qv_parse_definitions contents = qv_parse_lines (file_lines contents)"

section \<open>utils.py: the definitions of the variables\<close>

text \<open>
  \<^verbatim>\<open>load_variables(path)\<close> reads with \<^verbatim>\<open>json.load\<close> the file that \<^verbatim>\<open>dump_json\<close> wrote: a list
  of dicts with string keys whose values are strings or lists of strings. That list is
  the input of the model. \<^verbatim>\<open>d[k]\<close> raises \<^verbatim>\<open>KeyError\<close> for a missing key.
\<close>

definition getitem :: "pydict \<Rightarrow> string \<Rightarrow> error + pyval" where
  "getitem d k = (case map_of d k of None \<Rightarrow> Inl (KeyError k) | Some v \<Rightarrow> Inr v)"

text \<open>\<^verbatim>\<open>d[k] = v\<close> on an insertion-ordered dict: a key already present keeps its place.\<close>

fun setitem :: "('k \<times> 'v) list \<Rightarrow> 'k \<Rightarrow> 'v \<Rightarrow> ('k \<times> 'v) list" where
  "setitem [] k v = [(k, v)]"
| "setitem ((k', v') # d) k v = (if k' = k then (k, v) # d else (k', v') # setitem d k v)"

definition make_pair :: "pydict \<Rightarrow> error + (pyval \<times> pydict)" where
  "make_pair definition' =
     then_do (getitem definition' ''name'') (\<lambda>n.
     then_do (getitem definition' ''kind'') (\<lambda>k.
       let attrs = [(''kind'', k)] in
       if ''values'' \<in> fst ` set definition'
       then then_do (getitem definition' ''values'') (\<lambda>v. Inr (n, setitem attrs ''values'' v))
       else Inr (n, attrs)))"

text \<open>The list comprehension \<^verbatim>\<open>[make_pair(definition) for definition in definitions]\<close>.\<close>

fun make_pairs :: "pydict list \<Rightarrow> error + (pyval \<times> pydict) list" where
  "make_pairs [] = Inr []"
| "make_pairs (d # ds) =
     then_do (make_pair d) (\<lambda>p. then_do (make_pairs ds) (\<lambda>ps. Inr (p # ps)))"

text \<open>
  \<^verbatim>\<open>collections.OrderedDict(pairs)\<close> stores the pairs one after the other. A string is
  hashable; a list is not, and using one as a key raises \<^verbatim>\<open>TypeError\<close>.
\<close>

fun OrderedDict :: "(string \<times> pydict) list \<Rightarrow> (pyval \<times> pydict) list \<Rightarrow> error + (string \<times> pydict) list" where
  "OrderedDict od [] = Inr od"
| "OrderedDict od ((Str n, attrs) # pairs) = OrderedDict (setitem od n attrs) pairs"
| "OrderedDict od ((StrList xs, attrs) # pairs) = Inl TypeError"

definition load_variables :: "pydict list \<Rightarrow> error + (string \<times> pydict) list" where
  "load_variables definitions' = then_do (make_pairs definitions') (\<lambda>pairs. OrderedDict [] pairs)"

text \<open>\<^verbatim>\<open>x in [a, b]\<close> compares \<^verbatim>\<open>x\<close> with the elements by equality.\<close>

definition is_qualitative :: "pydict \<Rightarrow> error + bool" where
  "is_qualitative attrs =
     then_do (getitem attrs ''kind'') (\<lambda>k. Inr (k \<in> set [Str ''Nominal'', Str ''Ordinal'']))"

definition is_quantitative :: "pydict \<Rightarrow> error + bool" where
  "is_quantitative attrs =
     then_do (getitem attrs ''kind'') (\<lambda>k. Inr (k \<in> set [Str ''Discrete'', Str ''Continuous'']))"

section \<open>Notions used in the statements and proofs\<close>

subsection \<open>Closed forms of the patterns\<close>

text \<open>
  What the patterns match, written without the matcher: each function below is proved
  equal to \<open>re_match\<close> of the pattern it describes (\<open>P_QUALITATIVE_header\<close>,
  \<open>P_QUANTITATIVE_header\<close>, \<open>qv_P_QUANTITATIVE_header\<close>, \<open>P_VALUE_value\<close>, \<open>qv_P_VALUE_value\<close>).
\<close>

text \<open>No match of \<open>r\<close> starts with a character of the class \<open>a\<close>.\<close>

definition nofirst :: "atom \<Rightarrow> regex \<Rightarrow> bool" where
  "nofirst a r \<longleftrightarrow> (\<forall>c cs. atom_ok a c \<longrightarrow> rmatch r (c # cs) = [])"

text \<open>
  The text \<open>t\<close> after the closing parenthesis starts with a colon, after optional
  whitespace when \<open>sp\<close> holds (the pattern has \<^verbatim>\<open>\s*\<close>).
\<close>

definition colon_next :: "bool \<Rightarrow> string \<Rightarrow> bool" where
  "colon_next sp t = (case (if sp then dropWhile isspace t else t) of [] \<Rightarrow> False | d # _ \<Rightarrow> d = CHR '':'')"

text \<open>The text \<open>r\<close> after the opening parenthesis is the keyword \<open>k\<close>, \<^verbatim>\<open>)\<close> and the colon.\<close>

definition kw_colon :: "string \<Rightarrow> bool \<Rightarrow> string \<Rightarrow> bool" where
  "kw_colon k sp r \<longleftrightarrow>
     take (length k) r = k \<and>
     (case drop (length k) r of [] \<Rightarrow> False | c # t \<Rightarrow> c = CHR '')'' \<and> colon_next sp t)"

text \<open>
  A header pattern with the keywords \<open>k1\<close> and \<open>k2\<close>: the name is the text before the first
  \<^verbatim>\<open>(\<close>, and it is not empty.
\<close>

definition header_match :: "string \<Rightarrow> string \<Rightarrow> bool \<Rightarrow> string \<Rightarrow> groups option" where
  "header_match k1 k2 sp line =
     (case dropWhile (\<lambda>c. c \<noteq> CHR ''('') line of
        [] \<Rightarrow> None
      | c # r \<Rightarrow>
          if takeWhile (\<lambda>c. c \<noteq> CHR ''('') line = [] then None
          else if kw_colon k1 sp r then Some [(''name'', takeWhile (\<lambda>c. c \<noteq> CHR ''('') line), (''kind'', k1)]
          else if kw_colon k2 sp r then Some [(''name'', takeWhile (\<lambda>c. c \<noteq> CHR ''('') line), (''kind'', k2)]
          else None)"

text \<open>
  The value pattern: seven spaces, then a non-empty text without a tab (the value), then
  a tab.
\<close>

definition value_match :: "string \<Rightarrow> groups option" where
  "value_match line =
     (if take 7 line = replicate 7 SPC
         \<and> takeWhile (\<lambda>c. c \<noteq> TAB) (drop 7 line) \<noteq> []
         \<and> dropWhile (\<lambda>c. c \<noteq> TAB) (drop 7 line) \<noteq> []
      then Some [(''value'', takeWhile (\<lambda>c. c \<noteq> TAB) (drop 7 line))]
      else None)"

subsection \<open>Runs of value lines\<close>

text \<open>
  \<open>value_lines ls\<close>: every line of \<open>ls\<close> is blank or matches the value pattern (the two
  modules have the same value pattern, \<open>qv_P_VALUE_eq\<close>). \<open>line_values ls\<close>: the values the
  loop appends for such lines, one for each line that is not blank: the text between
  position 7 and the first tab, stripped.
\<close>

definition line_values :: "string list \<Rightarrow> string list" where
  "line_values ls =
     map (\<lambda>l. strip (drop 7 (takeWhile (\<lambda>c. c \<noteq> TAB) l))) (filter (\<lambda>l. strip l \<noteq> []) ls)"

definition value_lines :: "string list \<Rightarrow> bool" where
  "value_lines ls \<longleftrightarrow> (\<forall>l\<in>set ls. strip l = [] \<or> re_match P_VALUE l \<noteq> None)"

subsection \<open>Invariants of the loop\<close>

text \<open>
  While a definition is open, \<^verbatim>\<open>name\<close> is bound and \<^verbatim>\<open>kind\<close> is a qualitative keyword; while
  none is open, the list of values is empty.
\<close>

definition locals_ok :: "locals \<Rightarrow> bool" where
  "locals_ok s \<longleftrightarrow>
     (in_definition s \<longrightarrow>
        (\<exists>n. name s = Some n) \<and> (kind s = Some ''Nominal'' \<or> kind s = Some ''Ordinal''))
     \<and> (\<not> in_definition s \<longrightarrow> vals s = [])"

text \<open>
  Two states that differ at most in what \<^verbatim>\<open>name\<close> and \<^verbatim>\<open>kind\<close> hold while no definition is
  open.
\<close>

definition agree :: "locals \<Rightarrow> locals \<Rightarrow> bool" where
  "agree s t \<longleftrightarrow>
     definitions s = definitions t \<and> in_definition s = in_definition t \<and> vals s = vals t
     \<and> (in_definition s \<longrightarrow> name s = name t \<and> kind s = kind t)"

text \<open>
  \<open>qualitative_in ls d\<close>: \<open>d\<close> is the record of a qualitative header among the lines \<open>ls\<close>
  and of a run of blank and value lines that follows it: its values are those of the run,
  in the order of the lines, repeated when they repeat. \<open>record_ok ls d\<close>: \<open>d\<close> is such a
  record, or a record with a name and a quantitative kind only. \<open>pending_ok ls s\<close>: when
  a definition is open after the lines \<open>ls\<close>, they end with its header and a run of blank
  and value lines whose values are the ones accumulated.
\<close>

definition qualitative_in :: "string list \<Rightarrow> pydict \<Rightarrow> bool" where
  "qualitative_in ls d \<longleftrightarrow>
     (\<exists>pre hdr body post nm k.
        ls = pre @ hdr # body @ post
        \<and> re_match P_QUALITATIVE hdr = Some [(''name'', nm), (''kind'', k)]
        \<and> value_lines body
        \<and> d = [(''name'', Str (strip nm)), (''kind'', Str k), (''values'', StrList (line_values body))])"

definition record_ok :: "string list \<Rightarrow> pydict \<Rightarrow> bool" where
  "record_ok ls d \<longleftrightarrow>
     (\<exists>n k vs. d = [(''name'', Str n), (''kind'', Str k), (''values'', StrList vs)]
        \<and> (k = ''Nominal'' \<or> k = ''Ordinal'') \<and> qualitative_in ls d)
     \<or> (\<exists>n k. d = [(''name'', Str n), (''kind'', Str k)] \<and> (k = ''Discrete'' \<or> k = ''Continuous''))"

definition pending_ok :: "string list \<Rightarrow> locals \<Rightarrow> bool" where
  "pending_ok ls s \<longleftrightarrow>
     (in_definition s \<longrightarrow>
        (\<exists>pre hdr body nm k.
           ls = pre @ hdr # body
           \<and> re_match P_QUALITATIVE hdr = Some [(''name'', nm), (''kind'', k)]
           \<and> value_lines body
           \<and> name s = Some (strip nm) \<and> kind s = Some k \<and> vals s = line_values body))"

subsection \<open>The record the loader is to build\<close>

text \<open>
  The attributes the consumer contract describes for a definition: its kind and, exactly
  when the definition has a \<^verbatim>\<open>'values'\<close> key, its values.
\<close>

definition expected_attrs :: "pydict \<Rightarrow> pydict" where
  "expected_attrs d =
     (case map_of d ''kind'' of
        None \<Rightarrow> []
      | Some k \<Rightarrow>
          (''kind'', k) # (case map_of d ''values'' of None \<Rightarrow> [] | Some v \<Rightarrow> [(''values'', v)]))"

section \<open>Facts about the matcher\<close>

lemma strip_empty_iff: "strip s = [] \<longleftrightarrow> (\<forall>c\<in>set s. isspace c)"
proof -
  have "strip s = [] \<longleftrightarrow> (\<forall>c\<in>set (dropWhile isspace s). isspace c)"
    by (simp add: strip_def dropWhile_eq_Nil_conv)
  also have "\<dots> \<longleftrightarrow> dropWhile isspace s = []"
  proof
    assume a: "\<forall>c\<in>set (dropWhile isspace s). isspace c"
    show "dropWhile isspace s = []"
    proof (cases "dropWhile isspace s")
      case Nil then show ?thesis .
    next
      case (Cons x xs)
      then have "\<not> isspace x" using hd_dropWhile [of isspace s] by simp
      moreover have "isspace x" using a Cons by simp
      ultimately show ?thesis by simp
    qed
  next
    assume e: "dropWhile isspace s = []"
    show "\<forall>c\<in>set (dropWhile isspace s). isspace c" unfolding e by simp
  qed
  also have "\<dots> \<longleftrightarrow> (\<forall>c\<in>set s. isspace c)"
    by (simp add: dropWhile_eq_Nil_conv)
  finally show ?thesis .
qed

lemma star_splits_then:
  assumes "\<And>c cs. p c \<Longrightarrow> K (c # cs) = []"
  shows "concat (map (\<lambda>(m, r). map (F m) (K r)) (star_splits p s))
         = map (F (takeWhile p s)) (K (dropWhile p s))"
proof (induction s arbitrary: F)
  case Nil
  show ?case by simp
next
  case (Cons c cs)
  show ?case
  proof (cases "p c")
    case True
    have "concat (map (\<lambda>(m, r). map (F m) (K r)) (star_splits p (c # cs)))
          = concat (map (\<lambda>(m, r). map (F (c # m)) (K r)) (star_splits p cs)) @ map (F []) (K (c # cs))"
      using True by (simp add: comp_def case_prod_unfold)
    also have "\<dots> = map (F (c # takeWhile p cs)) (K (dropWhile p cs))"
      using Cons.IH [of "\<lambda>m. F (c # m)"] assms [OF True] by simp
    finally show ?thesis using True by simp
  next
    case False
    then show ?thesis by simp
  qed
qed

lemma rmatch_star_then:
  assumes "nofirst a r"
  shows "rmatch (Cat (Many0 a) r) s
         = map (\<lambda>(g, m, s'). (g, takeWhile (atom_ok a) s @ m, s')) (rmatch r (dropWhile (atom_ok a) s))"
proof -
  have k: "\<And>c cs. atom_ok a c \<Longrightarrow> rmatch r (c # cs) = []"
    using assms by (simp add: nofirst_def)
  have "rmatch (Cat (Many0 a) r) s
        = concat (map (\<lambda>(m, s1). map (\<lambda>(g2, m2, s2). (g2, m @ m2, s2)) (rmatch r s1))
                      (star_splits (atom_ok a) s))"
    by (simp add: comp_def case_prod_unfold)
  also have "\<dots> = map (\<lambda>(g2, m2, s2). (g2, takeWhile (atom_ok a) s @ m2, s2)) (rmatch r (dropWhile (atom_ok a) s))"
    using star_splits_then [of "atom_ok a" "rmatch r" "\<lambda>m. \<lambda>(g2, m2, s2). (g2, m @ m2, s2)" s, OF k]
    by simp
  finally show ?thesis .
qed

lemma filter_cons_splits:
  "filter (\<lambda>(m, r). m \<noteq> []) (map (\<lambda>(m, y). (c # m, y)) xs) = map (\<lambda>(m, y). (c # m, y)) xs"
  by (induction xs) auto

lemma rmatch_plus:
  "rmatch (Many1 a) s
   = (case s of [] \<Rightarrow> []
      | c # cs \<Rightarrow> if atom_ok a c then map (\<lambda>(m, r). ([], c # m, r)) (star_splits (atom_ok a) cs) else [])"
  by (cases s) (auto simp: filter_cons_splits comp_def case_prod_unfold)

lemma rmatch_group_plus_then:
  assumes "nofirst a r"
  shows "rmatch (Cat (Group n (Many1 a)) r) s
         = (if takeWhile (atom_ok a) s = [] then []
            else map (\<lambda>(g, m, s'). ((n, takeWhile (atom_ok a) s) # g, takeWhile (atom_ok a) s @ m, s'))
                     (rmatch r (dropWhile (atom_ok a) s)))"
proof (cases s)
  case Nil
  then show ?thesis by simp
next
  case (Cons c cs)
  show ?thesis
  proof (cases "atom_ok a c")
    case False
    have "rmatch (Many1 a) s = []"
      using Cons False by (simp add: rmatch_plus del: rmatch.simps)
    then have "rmatch (Cat (Group n (Many1 a)) r) s = []"
      by (simp only: rmatch.simps(5,7)) simp
    then show ?thesis using Cons False by simp
  next
    case True
    have k: "\<And>c cs. atom_ok a c \<Longrightarrow> rmatch r (c # cs) = []"
      using assms by (simp add: nofirst_def)
    have p: "rmatch (Many1 a) s = map (\<lambda>(m, r). ([], c # m, r)) (star_splits (atom_ok a) cs)"
      using Cons True by (simp add: rmatch_plus del: rmatch.simps)
    have "rmatch (Cat (Group n (Many1 a)) r) s
          = concat (map (\<lambda>(g1, m1, s1). map (\<lambda>(g2, m2, s2). (g1 @ g2, m1 @ m2, s2)) (rmatch r s1))
                        (map (\<lambda>(g, m, s'). (g @ [(n, m)], m, s')) (rmatch (Many1 a) s)))"
      by (simp only: rmatch.simps(5,7))
    also have "\<dots>
          = concat (map (\<lambda>(m, s1). map (\<lambda>(g2, m2, s2). ((n, c # m) # g2, (c # m) @ m2, s2)) (rmatch r s1))
                        (star_splits (atom_ok a) cs))"
      unfolding p by (simp add: comp_def case_prod_unfold)
    also have "\<dots> = map (\<lambda>(g2, m2, s2). ((n, c # takeWhile (atom_ok a) cs) # g2, (c # takeWhile (atom_ok a) cs) @ m2, s2))
                          (rmatch r (dropWhile (atom_ok a) cs))"
      using star_splits_then [of "atom_ok a" "rmatch r" "\<lambda>m. \<lambda>(g2, m2, s2). ((n, c # m) # g2, (c # m) @ m2, s2)" cs, OF k]
      by simp
    finally show ?thesis using Cons True by simp
  qed
qed

lemma nofirst_lit: "\<not> atom_ok a x \<Longrightarrow> nofirst a (Cat (Atom (Lit x)) r)"
  by (auto simp: nofirst_def)

lemma rmatch_lits:
  "rmatch (lits w) s = (if take (length w) s = w then [([], w, drop (length w) s)] else [])"
proof (induction w arbitrary: s)
  case Nil
  show ?case by simp
next
  case (Cons c w)
  show ?case
  proof (cases s)
    case Nil then show ?thesis by simp
  next
    case (Cons d t)
    then show ?thesis using Cons.IH [of t] by simp
  qed
qed

lemma rmatch_times_atom:
  "rmatch (exactly n (Atom a)) s
   = (if n \<le> length s \<and> (\<forall>c\<in>set (take n s). atom_ok a c) then [([], take n s, drop n s)] else [])"
proof (induction n arbitrary: s)
  case 0
  show ?case by simp
next
  case (Suc n)
  show ?case
  proof (cases s)
    case Nil then show ?thesis by simp
  next
    case (Cons d t)
    then show ?thesis using Suc.IH [of t] by simp
  qed
qed

lemma isspace_colon [simp]: "\<not> isspace CHR '':''"
  by (simp add: isspace_def)

lemma atom_ok_Space: "atom_ok Space = isspace"
  by (rule ext) simp

lemma atom_ok_not_paren: "atom_ok (NotSet ''('') = (\<lambda>c. c \<noteq> CHR ''('')"
  by (rule ext) simp

lemma rmatch_lit_then:
  "rmatch (Cat (Atom (Lit x)) R) t
   = (case t of [] \<Rightarrow> []
      | c # t' \<Rightarrow> if c = x then map (\<lambda>(g, m, s). (g, x # m, s)) (rmatch R t') else [])"
  by (cases t) simp_all

lemma rmatch_tail_plain:
  "rmatch (Cat (Atom (Lit CHR '':'')) Eps) t
   = (if colon_next False t then [([], '':'', tl t)] else [])"
  by (cases t) (simp_all add: colon_next_def)

lemma rmatch_tail_ws:
  "rmatch (Cat (Many0 Space) (Cat (Atom (Lit CHR '':'')) Eps)) t
   = (if colon_next True t then [([], takeWhile isspace t @ '':'', tl (dropWhile isspace t))] else [])"
proof -
  have n: "nofirst Space (Cat (Atom (Lit CHR '':'')) Eps)"
    by (rule nofirst_lit) simp
  have "rmatch (Cat (Many0 Space) (Cat (Atom (Lit CHR '':'')) Eps)) t
        = map (\<lambda>(g, m, s'). (g, takeWhile isspace t @ m, s'))
              (rmatch (Cat (Atom (Lit CHR '':'')) Eps) (dropWhile isspace t))"
    by (simp only: rmatch_star_then [OF n] atom_ok_Space)
  then show ?thesis
    by (simp add: rmatch_tail_plain colon_next_def del: rmatch.simps split: list.splits)
qed

lemma rmatch_group_lits:
  "rmatch (Cat (Group n (lits k)) R) r
   = (if take (length k) r = k
      then map (\<lambda>(g, m, s). ((n, k) # g, k @ m, s)) (rmatch R (drop (length k) r)) else [])"
  by (simp add: rmatch_lits del: lits.simps)

lemma rmatch_group_alt:
  "rmatch (Cat (Group n (Alt a b)) R) r = rmatch (Cat (Group n a) R) r @ rmatch (Cat (Group n b) R) r"
  by simp

lemma rmatch_kw:
  assumes "\<And>t. rmatch T t = (if colon_next sp t then [([], M t, S t)] else [])"
  shows "rmatch (Cat (Group n (lits k)) (Cat (Atom (Lit CHR '')'')) T)) r
         = (if kw_colon k sp r
            then [([(n, k)], k @ CHR '')'' # M (drop (Suc (length k)) r), S (drop (Suc (length k)) r))]
            else [])"
proof (cases "drop (length k) r")
  case Nil
  then show ?thesis
    by (simp add: rmatch_group_lits rmatch_lit_then kw_colon_def del: rmatch.simps)
next
  case (Cons c t)
  then have "drop (Suc (length k)) r = t"
    by (metis drop_Suc tl_drop list.sel(3))
  then show ?thesis using Cons
    by (simp add: rmatch_group_lits rmatch_lit_then assms kw_colon_def del: rmatch.simps)
qed

lemma re_match_header:
  assumes "\<And>t. rmatch T t = (if colon_next sp t then [([], M t, S t)] else [])"
  shows "re_match (Cat (Group ''name'' (Many1 (NotSet ''(''))) (Cat (Atom (Lit CHR ''(''))
            (Cat (Group ''kind'' (Alt (lits k1) (lits k2))) (Cat (Atom (Lit CHR '')'')) T)))) line
         = header_match k1 k2 sp line"
proof -
  let ?R = "Cat (Group ''kind'' (Alt (lits k1) (lits k2))) (Cat (Atom (Lit CHR '')'')) T)"
  have n: "nofirst (NotSet ''('') (Cat (Atom (Lit CHR ''('')) ?R)"
    by (rule nofirst_lit) simp
  define nm where "nm = takeWhile (\<lambda>c. c \<noteq> CHR ''('') line"
  define r0 where "r0 = dropWhile (\<lambda>c. c \<noteq> CHR ''('') line"
  have h: "hd r0 = CHR ''(''" if "r0 \<noteq> []"
    using that hd_dropWhile [of "\<lambda>c. c \<noteq> CHR ''(''" line] unfolding r0_def by blast
  have 1: "rmatch (Cat (Group ''name'' (Many1 (NotSet ''(''))) (Cat (Atom (Lit CHR ''('')) ?R)) line
           = (if nm = [] then []
              else map (\<lambda>(g, m, s'). ((''name'', nm) # g, nm @ m, s'))
                     (rmatch (Cat (Atom (Lit CHR ''('')) ?R) r0))"
    unfolding nm_def r0_def by (simp only: rmatch_group_plus_then [OF n] atom_ok_not_paren)
  have 2: "header_match k1 k2 sp line =
     (case r0 of
        [] \<Rightarrow> None
      | c # r \<Rightarrow>
          if nm = [] then None
          else if kw_colon k1 sp r then Some [(''name'', nm), (''kind'', k1)]
          else if kw_colon k2 sp r then Some [(''name'', nm), (''kind'', k2)]
          else None)"
    unfolding nm_def r0_def header_match_def ..
  show ?thesis
  proof (cases r0)
    case Nil
    show ?thesis
      unfolding re_match_def 1 2 Nil by (simp add: rmatch_lit_then del: rmatch.simps)
  next
    case (Cons c r)
    then have c: "c = CHR ''(''"
      using h by simp
    show ?thesis
      unfolding re_match_def 1 2 Cons c
      by (simp add: rmatch_lit_then rmatch_group_alt rmatch_kw [OF assms] del: rmatch.simps)
  qed
qed

lemma P_QUALITATIVE_header: "re_match P_QUALITATIVE line = header_match ''Nominal'' ''Ordinal'' True line"
  by (simp only: P_QUALITATIVE_def seqs.simps re_match_header [OF rmatch_tail_ws])

lemma P_QUANTITATIVE_header: "re_match P_QUANTITATIVE line = header_match ''Discrete'' ''Continuous'' True line"
  by (simp only: P_QUANTITATIVE_def seqs.simps re_match_header [OF rmatch_tail_ws])

lemma qv_P_QUANTITATIVE_header: "re_match qv_P_QUANTITATIVE line = header_match ''Nominal'' ''Ordinal'' False line"
  by (simp only: qv_P_QUANTITATIVE_def seqs.simps re_match_header [OF rmatch_tail_plain])

lemma atom_ok_not_tab: "atom_ok (NotSet [TAB]) = (\<lambda>c. c \<noteq> TAB)"
  by (rule ext) simp

lemma all_spaces_iff: "(\<forall>c\<in>set xs. c = a) \<longleftrightarrow> xs = replicate (length xs) a"
  by (induction xs) auto

lemma rmatch_times_then:
  "rmatch (Cat (exactly n (Atom a)) R) s
   = (if n \<le> length s \<and> (\<forall>c\<in>set (take n s). atom_ok a c)
      then map (\<lambda>(g, m, s'). (g, take n s @ m, s')) (rmatch R (drop n s)) else [])"
  by (auto simp: rmatch_times_atom)

lemma take7_spaces: "7 \<le> length line \<and> (\<forall>c\<in>set (take 7 line). c = SPC) \<longleftrightarrow> take 7 line = replicate 7 SPC"
proof
  assume a: "7 \<le> length line \<and> (\<forall>c\<in>set (take 7 line). c = SPC)"
  then have "take 7 line = replicate (length (take 7 line)) SPC"
    using all_spaces_iff [of "take 7 line" SPC] by blast
  then show "take 7 line = replicate 7 SPC" using a by simp
next
  assume b: "take 7 line = replicate 7 SPC"
  have "length (take 7 line) = 7" unfolding b by simp
  then have "7 \<le> length line" by simp
  moreover have "\<forall>c\<in>set (take 7 line). c = SPC" unfolding b by simp
  ultimately show "7 \<le> length line \<and> (\<forall>c\<in>set (take 7 line). c = SPC)" by simp
qed

lemma re_match_value:
  "re_match (Cat (exactly 7 (Atom (InSet '' ''))) (Cat (Group ''value'' (Many1 (NotSet [TAB]))) (Cat (Atom (Lit TAB)) Eps))) line
   = value_match line"
proof -
  have n: "nofirst (NotSet [TAB]) (Cat (Atom (Lit TAB)) Eps)"
    by (rule nofirst_lit) simp
  define v where "v = takeWhile (\<lambda>c. c \<noteq> TAB) (drop 7 line)"
  define r where "r = dropWhile (\<lambda>c. c \<noteq> TAB) (drop 7 line)"
  have h: "hd r = TAB" if "r \<noteq> []"
    using that hd_dropWhile [of "\<lambda>c. c \<noteq> TAB" "drop 7 line"] unfolding r_def by blast
  have 1: "rmatch (Cat (Group ''value'' (Many1 (NotSet [TAB]))) (Cat (Atom (Lit TAB)) Eps)) (drop 7 line)
        = (if v = [] then [] else map (\<lambda>(g, m, s'). ((''value'', v) # g, v @ m, s')) (rmatch (Cat (Atom (Lit TAB)) Eps) r))"
    unfolding v_def r_def by (simp only: rmatch_group_plus_then [OF n] atom_ok_not_tab)
  have 2: "value_match line = (if take 7 line = replicate 7 SPC \<and> v \<noteq> [] \<and> r \<noteq> [] then Some [(''value'', v)] else None)"
    unfolding v_def r_def value_match_def ..
  have 3: "(7 \<le> length line \<and> (\<forall>c\<in>set (take 7 line). atom_ok (InSet '' '') c)) = (take 7 line = replicate 7 SPC)"
    using take7_spaces [of line] by simp
  show ?thesis
  proof (cases r)
    case Nil
    show ?thesis
      unfolding re_match_def rmatch_times_then 1 2 3 Nil by (simp add: rmatch_lit_then del: rmatch.simps(2-7))
  next
    case (Cons c t)
    then have c: "c = TAB" using h by simp
    show ?thesis
      unfolding re_match_def rmatch_times_then 1 2 3 Cons c by (simp add: rmatch_lit_then del: rmatch.simps(2-7))
  qed
qed

lemma P_VALUE_value: "re_match P_VALUE line = value_match line"
  by (simp only: P_VALUE_def seqs.simps re_match_value)

lemma qv_P_VALUE_value: "re_match qv_P_VALUE line = value_match line"
  by (simp only: qv_P_VALUE_def seqs.simps re_match_value)

lemma value_match_Some_iff:
  "value_match line \<noteq> None \<longleftrightarrow>
     take 7 line = replicate 7 SPC \<and> 7 < length line \<and> line ! 7 \<noteq> TAB \<and> TAB \<in> set line"
proof -
  have s: "line = take 7 line @ drop 7 line" by simp
  show ?thesis
  proof (cases "take 7 line = replicate 7 SPC")
    case False
    then show ?thesis by (simp add: value_match_def)
  next
    case True
    have len: "7 \<le> length line" using take7_spaces [of line] True by blast
    have "set line = set (take 7 line) \<union> set (drop 7 line)"
      using s by (metis set_append)
    then have tab: "TAB \<in> set line \<longleftrightarrow> TAB \<in> set (drop 7 line)"
      unfolding True by auto
    have a: "takeWhile (\<lambda>c. c \<noteq> TAB) (drop 7 line) \<noteq> [] \<longleftrightarrow> 7 < length line \<and> line ! 7 \<noteq> TAB"
    proof (cases "drop 7 line")
      case Nil
      then show ?thesis by simp
    next
      case (Cons c t)
      then have "7 < length line" using len
        by (metis drop_eq_Nil list.distinct(1) not_le_imp_less)
      moreover have "line ! 7 = c"
        using Cons by (metis hd_drop_conv_nth calculation list.sel(1))
      ultimately show ?thesis using Cons by simp
    qed
    have b: "dropWhile (\<lambda>c. c \<noteq> TAB) (drop 7 line) \<noteq> [] \<longleftrightarrow> TAB \<in> set (drop 7 line)"
      by (auto simp: dropWhile_eq_Nil_conv)
    show ?thesis using True a b tab by (simp add: value_match_def)
  qed
qed

lemma value_text_eq:
  assumes "take 7 line = replicate 7 SPC"
  shows "takeWhile (\<lambda>c. c \<noteq> TAB) (drop 7 line) = drop 7 (takeWhile (\<lambda>c. c \<noteq> TAB) line)"
proof -
  have "takeWhile (\<lambda>c. c \<noteq> TAB) (take 7 line @ drop 7 line)
        = take 7 line @ takeWhile (\<lambda>c. c \<noteq> TAB) (drop 7 line)"
    by (rule takeWhile_append2) (simp add: assms)
  then have "takeWhile (\<lambda>c. c \<noteq> TAB) line = take 7 line @ takeWhile (\<lambda>c. c \<noteq> TAB) (drop 7 line)"
    by simp
  moreover have "length (take 7 line) = 7" unfolding assms by simp
  ultimately show ?thesis by simp
qed

lemma strip_keywords [simp]:
  "strip ''Nominal'' = ''Nominal''" "strip ''Ordinal'' = ''Ordinal''"
  "strip ''Discrete'' = ''Discrete''" "strip ''Continuous'' = ''Continuous''"
  by (simp_all add: strip_def isspace_def)

lemma header_match_cases:
  assumes "header_match k1 k2 sp line = Some g"
  shows "g = [(''name'', takeWhile (\<lambda>c. c \<noteq> CHR ''('') line), (''kind'', k1)]
       \<or> g = [(''name'', takeWhile (\<lambda>c. c \<noteq> CHR ''('') line), (''kind'', k2)]"
  using assms by (auto simp: header_match_def split: list.splits if_splits)

lemma header_match_paren:
  assumes "header_match k1 k2 sp line = Some g"
  shows "CHR ''('' \<in> set line"
proof -
  obtain c r where d: "dropWhile (\<lambda>c. c \<noteq> CHR ''('') line = c # r"
    using assms by (cases "dropWhile (\<lambda>c. c \<noteq> CHR ''('') line") (simp_all add: header_match_def)
  then have "c = CHR ''(''"
    using hd_dropWhile [of "\<lambda>c. c \<noteq> CHR ''(''" line] by simp
  moreover have "c \<in> set line"
    using d set_dropWhileD [of c "\<lambda>c. c \<noteq> CHR ''(''" line] by simp
  ultimately show ?thesis by simp
qed

lemma header_match_nonblank:
  assumes "header_match k1 k2 sp line = Some g"
  shows "strip line \<noteq> []"
proof -
  have "\<not> isspace CHR ''(''" by (simp add: isspace_def)
  then show ?thesis using header_match_paren [OF assms] strip_empty_iff [of line] by blast
qed

lemma kw_colon_hd:
  assumes "kw_colon k sp r" and "k \<noteq> []"
  shows "r \<noteq> [] \<and> hd r = hd k"
proof -
  from assms(1) have t: "take (length k) r = k" by (simp add: kw_colon_def)
  obtain a k' where k: "k = a # k'" using assms(2) by (cases k) auto
  show ?thesis
  proof (cases r)
    case Nil
    then show ?thesis using t k by simp
  next
    case (Cons b r')
    then show ?thesis using t k by simp
  qed
qed

lemma header_match_kw:
  assumes "header_match k1 k2 sp line = Some g"
  shows "\<exists>c r. dropWhile (\<lambda>c. c \<noteq> CHR ''('') line = c # r \<and> (kw_colon k1 sp r \<or> kw_colon k2 sp r)"
  using assms by (auto simp: header_match_def split: list.splits if_splits)

lemma header_match_exclusive:
  assumes "header_match k1 k2 sp line = Some g"
    and "k1 \<noteq> []" "k2 \<noteq> []" "k3 \<noteq> []" "k4 \<noteq> []"
    and "hd k1 \<noteq> hd k3" "hd k1 \<noteq> hd k4" "hd k2 \<noteq> hd k3" "hd k2 \<noteq> hd k4"
  shows "header_match k3 k4 sp' line = None"
proof -
  obtain c r where d: "dropWhile (\<lambda>c. c \<noteq> CHR ''('') line = c # r"
    and kw: "kw_colon k1 sp r \<or> kw_colon k2 sp r"
    using header_match_kw [OF assms(1)] by blast
  from kw have h: "hd r = hd k1 \<or> hd r = hd k2"
    using kw_colon_hd assms(2,3) by blast
  have "\<not> kw_colon k3 sp' r" using kw_colon_hd [of k3 sp' r] h assms by auto
  moreover have "\<not> kw_colon k4 sp' r" using kw_colon_hd [of k4 sp' r] h assms by auto
  ultimately show ?thesis using d by (simp add: header_match_def)
qed

lemma qualitative_not_quantitative:
  assumes "re_match P_QUALITATIVE line = Some g"
  shows "re_match P_QUANTITATIVE line = None"
  using header_match_exclusive [of "''Nominal''" "''Ordinal''" True line g "''Discrete''" "''Continuous''" True] assms
  by (simp add: P_QUALITATIVE_header P_QUANTITATIVE_header)

lemma header_match_complete:
  assumes "nm \<noteq> []" and "CHR ''('' \<notin> set nm" and "\<forall>c\<in>set ws. isspace c" and "sp \<or> ws = []"
    and "k = k1 \<or> k = k2 \<and> \<not> kw_colon k1 sp (k2 @ CHR '')'' # ws @ CHR '':'' # rest)"
  shows "header_match k1 k2 sp (nm @ CHR ''('' # k @ CHR '')'' # ws @ CHR '':'' # rest)
         = Some [(''name'', nm), (''kind'', k)]"
proof -
  let ?line = "nm @ CHR ''('' # k @ CHR '')'' # ws @ CHR '':'' # rest"
  have nmP: "\<And>x. x \<in> set nm \<Longrightarrow> x \<noteq> CHR ''(''"
    using assms(2) by auto
  have wsP: "\<And>x. x \<in> set ws \<Longrightarrow> isspace x"
    using assms(3) by auto
  have t: "takeWhile (\<lambda>c. c \<noteq> CHR ''('') ?line = nm"
    by (simp add: takeWhile_append2 nmP)
  have d: "dropWhile (\<lambda>c. c \<noteq> CHR ''('') ?line = CHR ''('' # k @ CHR '')'' # ws @ CHR '':'' # rest"
    by (simp add: dropWhile_append2 nmP)
  have w: "dropWhile isspace (ws @ CHR '':'' # rest) = CHR '':'' # rest"
    by (simp add: dropWhile_append2 wsP)
  have c: "colon_next sp (ws @ CHR '':'' # rest)"
    using assms(4) w by (auto simp: colon_next_def)
  have kw: "kw_colon k sp (k @ CHR '')'' # ws @ CHR '':'' # rest)"
    using c by (simp add: kw_colon_def)
  show ?thesis
    using assms(1,5) kw unfolding header_match_def t d by auto
qed

section \<open>Facts about one iteration\<close>

lemma then_do_Inr [simp]: "then_do (Inr x) f = f x"
  by (simp add: then_do_def)

lemma then_do_Inl [simp]: "then_do (Inl e) f = Inl e"
  by (simp add: then_do_def)

lemma re_match_qualitative_form:
  assumes "re_match P_QUALITATIVE line = Some g"
  shows "\<exists>nm k. g = [(''name'', nm), (''kind'', k)] \<and> (k = ''Nominal'' \<or> k = ''Ordinal'')"
  using header_match_cases [of "''Nominal''" "''Ordinal''" True line g] assms
  by (auto simp: P_QUALITATIVE_header)

lemma re_match_quantitative_form:
  assumes "re_match P_QUANTITATIVE line = Some g"
  shows "\<exists>nm k. g = [(''name'', nm), (''kind'', k)] \<and> (k = ''Discrete'' \<or> k = ''Continuous'')"
  using header_match_cases [of "''Discrete''" "''Continuous''" True line g] assms
  by (auto simp: P_QUANTITATIVE_header)

lemma re_match_qv_form:
  assumes "re_match qv_P_QUANTITATIVE line = Some g"
  shows "\<exists>nm k. g = [(''name'', nm), (''kind'', k)] \<and> (k = ''Nominal'' \<or> k = ''Ordinal'')"
  using header_match_cases [of "''Nominal''" "''Ordinal''" False line g] assms
  by (auto simp: qv_P_QUANTITATIVE_header)

lemma re_match_value_form:
  assumes "re_match P_VALUE line = Some g"
  shows "g = [(''value'', drop 7 (takeWhile (\<lambda>c. c \<noteq> TAB) line))]"
proof -
  from assms have v: "value_match line = Some g" by (simp add: P_VALUE_value)
  then have t: "take 7 line = replicate 7 SPC"
    by (simp add: value_match_def split: if_splits)
  from v have "g = [(''value'', takeWhile (\<lambda>c. c \<noteq> TAB) (drop 7 line))]"
    by (auto simp: value_match_def split: if_splits)
  then show ?thesis using value_text_eq [OF t] by simp
qed

lemma qv_end_definition_eq: "qv_end_definition s = end_definition s"
  by (simp add: qv_end_definition_def end_definition_def)

lemma qv_P_VALUE_eq: "re_match qv_P_VALUE line = re_match P_VALUE line"
  by (simp add: P_VALUE_value qv_P_VALUE_value)

lemma qv_value_or_end_eq: "qv_value_or_end s line = value_or_end s line"
  by (simp add: qv_value_or_end_def value_or_end_def qv_end_definition_eq qv_P_VALUE_eq
        split: option.splits)

lemma end_definition_bound:
  assumes "name s = Some n" and "kind s = Some k"
  shows "end_definition s =
         Inr (s\<lparr>definitions := definitions s @
                   [[(''name'', Str n), (''kind'', Str k), (''values'', StrList (vals s))]],
                 in_definition := False, vals := []\<rparr>)"
  using assms by (simp add: end_definition_def)

lemma value_or_end_value:
  assumes "re_match P_VALUE line \<noteq> None"
  shows "value_or_end s line
         = Inr (s\<lparr>vals := vals s @ [strip (drop 7 (takeWhile (\<lambda>c. c \<noteq> TAB) line))]\<rparr>)"
proof -
  obtain g where g: "re_match P_VALUE line = Some g" using assms by auto
  show ?thesis
    using re_match_value_form [OF g] g by (simp add: value_or_end_def group_strip_def)
qed

lemma value_or_end_other:
  assumes "re_match P_VALUE line = None"
  shows "value_or_end s line = end_definition s"
  using assms by (simp add: value_or_end_def)

lemma headers_qualitative:
  assumes "re_match P_QUALITATIVE line = Some [(''name'', nm), (''kind'', k)]"
  shows "headers s line = Inr (s\<lparr>name := Some (strip nm), kind := Some k, in_definition := True\<rparr>)"
proof -
  have k: "k = ''Nominal'' \<or> k = ''Ordinal''"
    using re_match_qualitative_form [OF assms] by simp
  have q: "re_match P_QUANTITATIVE line = None"
    using qualitative_not_quantitative [OF assms] .
  show ?thesis using assms k q
    by (auto simp: headers_def start_qualitative_def quantitative_def group_strip_def)
qed

lemma headers_quantitative:
  assumes "re_match P_QUANTITATIVE line = Some [(''name'', nm), (''kind'', k)]"
  shows "headers s line
         = Inr (s\<lparr>name := Some (strip nm), kind := Some k,
                   definitions := definitions s @ [[(''name'', Str (strip nm)), (''kind'', Str k)]]\<rparr>)"
proof -
  have k: "k = ''Discrete'' \<or> k = ''Continuous''"
    using re_match_quantitative_form [OF assms] by simp
  have q: "re_match P_QUALITATIVE line = None"
  proof (cases "re_match P_QUALITATIVE line")
    case None then show ?thesis .
  next
    case (Some g)
    then show ?thesis using qualitative_not_quantitative [OF Some] assms by simp
  qed
  show ?thesis using assms k q
    by (auto simp: headers_def start_qualitative_def quantitative_def group_strip_def)
qed

lemma headers_neither:
  assumes "re_match P_QUALITATIVE line = None" and "re_match P_QUANTITATIVE line = None"
  shows "headers s line = Inr s"
  using assms by (simp add: headers_def start_qualitative_def quantitative_def)

lemma loop_body_blank:
  assumes "strip line = []"
  shows "loop_body s line = Inr s"
  using assms by (simp add: loop_body_def)

lemma loop_body_value:
  assumes "strip line \<noteq> []" and "in_definition s" and "re_match P_VALUE line \<noteq> None"
  shows "loop_body s line
         = Inr (s\<lparr>vals := vals s @ [strip (drop 7 (takeWhile (\<lambda>c. c \<noteq> TAB) line))]\<rparr>)"
  using assms by (simp add: loop_body_def value_or_end_value)

lemma loop_body_end:
  assumes "strip line \<noteq> []" and "in_definition s" and "re_match P_VALUE line = None"
    and "name s = Some n" and "kind s = Some k"
  shows "loop_body s line
         = headers (s\<lparr>definitions := definitions s @
                   [[(''name'', Str n), (''kind'', Str k), (''values'', StrList (vals s))]],
                 in_definition := False, vals := []\<rparr>) line"
  using assms by (simp add: loop_body_def value_or_end_other end_definition_bound)

lemma loop_body_idle:
  assumes "strip line \<noteq> []" and "\<not> in_definition s"
  shows "loop_body s line = headers s line"
  using assms by (simp add: loop_body_def)

text \<open>The same steps in \<^verbatim>\<open>qualitative_variables.py\<close>.\<close>

lemma qv_start_definition_header:
  assumes "re_match qv_P_QUANTITATIVE line = Some [(''name'', nm), (''kind'', k)]"
  shows "qv_start_definition s line = Inr (s\<lparr>name := Some (strip nm), kind := Some k, in_definition := True\<rparr>)"
proof -
  have k: "k = ''Nominal'' \<or> k = ''Ordinal''"
    using re_match_qv_form [OF assms] by simp
  show ?thesis using assms k
    by (auto simp: qv_start_definition_def group_strip_def)
qed

lemma qv_start_definition_other:
  assumes "re_match qv_P_QUANTITATIVE line = None"
  shows "qv_start_definition s line = Inr s"
  using assms by (simp add: qv_start_definition_def)

lemma qv_loop_body_blank:
  assumes "strip line = []"
  shows "qv_loop_body s line = Inr s"
  using assms by (simp add: qv_loop_body_def)

lemma qv_loop_body_value:
  assumes "strip line \<noteq> []" and "in_definition s" and "re_match P_VALUE line \<noteq> None"
  shows "qv_loop_body s line
         = Inr (s\<lparr>vals := vals s @ [strip (drop 7 (takeWhile (\<lambda>c. c \<noteq> TAB) line))]\<rparr>)"
  using assms by (simp add: qv_loop_body_def qv_value_or_end_eq value_or_end_value)

lemma qv_loop_body_end:
  assumes "strip line \<noteq> []" and "in_definition s" and "re_match P_VALUE line = None"
    and "name s = Some n" and "kind s = Some k"
  shows "qv_loop_body s line
         = qv_start_definition (s\<lparr>definitions := definitions s @
                   [[(''name'', Str n), (''kind'', Str k), (''values'', StrList (vals s))]],
                 in_definition := False, vals := []\<rparr>) line"
  using assms by (simp add: qv_loop_body_def qv_value_or_end_eq value_or_end_other end_definition_bound)

lemma qv_loop_body_idle:
  assumes "strip line \<noteq> []" and "\<not> in_definition s"
  shows "qv_loop_body s line = qv_start_definition s line"
  using assms by (simp add: qv_loop_body_def)

section \<open>Facts about the loop\<close>

lemma for_lines_append:
  "for_lines s (xs @ ys) = then_do (for_lines s xs) (\<lambda>s'. for_lines s' ys)"
proof (induction xs arbitrary: s)
  case Nil
  show ?case by simp
next
  case (Cons x xs)
  show ?case
  proof (cases "loop_body s x")
    case (Inl e)
    then show ?thesis by simp
  next
    case (Inr s')
    then show ?thesis using Cons.IH [of s'] by simp
  qed
qed

lemma qv_for_lines_append:
  "qv_for_lines s (xs @ ys) = then_do (qv_for_lines s xs) (\<lambda>s'. qv_for_lines s' ys)"
proof (induction xs arbitrary: s)
  case Nil
  show ?case by simp
next
  case (Cons x xs)
  show ?case
  proof (cases "qv_loop_body s x")
    case (Inl e)
    then show ?thesis by simp
  next
    case (Inr s')
    then show ?thesis using Cons.IH [of s'] by simp
  qed
qed

lemma line_values_Nil [simp]: "line_values [] = []"
  by (simp add: line_values_def)

lemma line_values_blank: "strip l = [] \<Longrightarrow> line_values (l # ls) = line_values ls"
  by (simp add: line_values_def)

lemma line_values_value:
  "strip l \<noteq> [] \<Longrightarrow>
   line_values (l # ls) = strip (drop 7 (takeWhile (\<lambda>c. c \<noteq> TAB) l)) # line_values ls"
  by (simp add: line_values_def)

lemma line_values_append: "line_values (xs @ ys) = line_values xs @ line_values ys"
  by (simp add: line_values_def)

lemma line_values_all_blank: "\<forall>l\<in>set ls. strip l = [] \<Longrightarrow> line_values ls = []"
  by (induction ls) (simp_all add: line_values_def)

lemma for_lines_body:
  assumes "in_definition s" and "value_lines body"
  shows "for_lines s body = Inr (s\<lparr>vals := vals s @ line_values body\<rparr>)"
  using assms
proof (induction body arbitrary: s)
  case Nil
  then show ?case by simp
next
  case (Cons l body)
  from Cons.prems(2) have rest: "value_lines body" and l: "strip l = [] \<or> re_match P_VALUE l \<noteq> None"
    by (simp_all add: value_lines_def)
  show ?case
  proof (cases "strip l = []")
    case True
    then show ?thesis
      using Cons.IH [OF Cons.prems(1) rest] by (simp add: loop_body_blank line_values_blank)
  next
    case False
    then have v: "re_match P_VALUE l \<noteq> None" using l by simp
    let ?s' = "s\<lparr>vals := vals s @ [strip (drop 7 (takeWhile (\<lambda>c. c \<noteq> TAB) l))]\<rparr>"
    have "in_definition ?s'" using Cons.prems(1) by simp
    from Cons.IH [OF this rest] show ?thesis
      using False by (simp add: loop_body_value [OF False Cons.prems(1) v] line_values_value)
  qed
qed

lemma qv_for_lines_body:
  assumes "in_definition s" and "value_lines body"
  shows "qv_for_lines s body = Inr (s\<lparr>vals := vals s @ line_values body\<rparr>)"
  using assms
proof (induction body arbitrary: s)
  case Nil
  then show ?case by simp
next
  case (Cons l body)
  from Cons.prems(2) have rest: "value_lines body" and l: "strip l = [] \<or> re_match P_VALUE l \<noteq> None"
    by (simp_all add: value_lines_def)
  show ?case
  proof (cases "strip l = []")
    case True
    then show ?thesis
      using Cons.IH [OF Cons.prems(1) rest] by (simp add: qv_loop_body_blank line_values_blank)
  next
    case False
    then have v: "re_match P_VALUE l \<noteq> None" using l by simp
    let ?s' = "s\<lparr>vals := vals s @ [strip (drop 7 (takeWhile (\<lambda>c. c \<noteq> TAB) l))]\<rparr>"
    have "in_definition ?s'" using Cons.prems(1) by simp
    from Cons.IH [OF this rest] show ?thesis
      using False by (simp add: qv_loop_body_value [OF False Cons.prems(1) v] line_values_value)
  qed
qed

text \<open>Every iteration succeeds from a state whose pending definition is bound.\<close>

lemma headers_ok:
  assumes "\<not> in_definition s" and "vals s = []"
  shows "\<exists>s'. headers s line = Inr s' \<and> locals_ok s' \<and> (\<exists>ds. definitions s' = definitions s @ ds)"
proof (cases "re_match P_QUALITATIVE line")
  case (Some g)
  then obtain nm k where g: "g = [(''name'', nm), (''kind'', k)]" and k: "k = ''Nominal'' \<or> k = ''Ordinal''"
    using re_match_qualitative_form by blast
  show ?thesis
    using headers_qualitative [of line nm k s] Some g k by (auto simp: locals_ok_def)
next
  case None
  show ?thesis
  proof (cases "re_match P_QUANTITATIVE line")
    case (Some g)
    then obtain nm k where g: "g = [(''name'', nm), (''kind'', k)]"
      using re_match_quantitative_form by blast
    show ?thesis
      using headers_quantitative [of line nm k s] Some g assms by (auto simp: locals_ok_def)
  next
    case n: None
    show ?thesis using headers_neither [OF None n, of s] assms by (auto simp: locals_ok_def)
  qed
qed

lemma loop_body_ok:
  assumes "locals_ok s"
  shows "\<exists>s'. loop_body s line = Inr s' \<and> locals_ok s' \<and> (\<exists>ds. definitions s' = definitions s @ ds)"
proof (cases "strip line = []")
  case True
  then show ?thesis using assms by (simp add: loop_body_blank)
next
  case False
  show ?thesis
  proof (cases "in_definition s")
    case idle: False
    then have "vals s = []" using assms by (simp add: locals_ok_def)
    then show ?thesis using headers_ok [OF idle, of line] loop_body_idle [OF False idle] by simp
  next
    case True
    then obtain n k where n: "name s = Some n" and k: "kind s = Some k"
      using assms by (auto simp: locals_ok_def)
    show ?thesis
    proof (cases "re_match P_VALUE line")
      case (Some g)
      then have "re_match P_VALUE line \<noteq> None" by simp
      from loop_body_value [OF False True this] show ?thesis
        using assms True by (simp add: locals_ok_def)
    next
      case None
      let ?s0 = "s\<lparr>definitions := definitions s @
                   [[(''name'', Str n), (''kind'', Str k), (''values'', StrList (vals s))]],
                 in_definition := False, vals := []\<rparr>"
      have "\<not> in_definition ?s0" and "vals ?s0 = []" by simp_all
      from headers_ok [OF this, of line] obtain s' ds where
        h: "headers ?s0 line = Inr s'" and ok: "locals_ok s'" and d: "definitions s' = definitions ?s0 @ ds"
        by blast
      show ?thesis
        using loop_body_end [OF False True None n k] h ok d by simp
    qed
  qed
qed

lemma for_lines_ok:
  assumes "locals_ok s"
  shows "\<exists>s'. for_lines s ls = Inr s' \<and> locals_ok s' \<and> (\<exists>ds. definitions s' = definitions s @ ds)"
  using assms
proof (induction ls arbitrary: s)
  case Nil
  then show ?case by simp
next
  case (Cons l ls)
  from loop_body_ok [OF Cons.prems, of l] obtain s1 ds1 where
    1: "loop_body s l = Inr s1" and ok1: "locals_ok s1" and d1: "definitions s1 = definitions s @ ds1"
    by blast
  from Cons.IH [OF ok1] obtain s2 ds2 where
    2: "for_lines s1 ls = Inr s2" and ok2: "locals_ok s2" and d2: "definitions s2 = definitions s1 @ ds2"
    by blast
  show ?case using 1 2 ok2 d1 d2 by simp
qed

lemma locals_ok_init: "locals_ok init_locals"
  by (simp add: locals_ok_def init_locals_def)

lemma for_lines_reach:
  assumes "for_lines init_locals ls = Inr s"
  shows "locals_ok s"
  using for_lines_ok [OF locals_ok_init, of ls] assms by auto

text \<open>The same for \<^verbatim>\<open>qualitative_variables.py\<close>.\<close>

lemma qv_start_definition_ok:
  assumes "\<not> in_definition s" and "vals s = []"
  shows "\<exists>s'. qv_start_definition s line = Inr s' \<and> locals_ok s' \<and> definitions s' = definitions s"
proof (cases "re_match qv_P_QUANTITATIVE line")
  case (Some g)
  then obtain nm k where g: "g = [(''name'', nm), (''kind'', k)]" and k: "k = ''Nominal'' \<or> k = ''Ordinal''"
    using re_match_qv_form by blast
  show ?thesis
    using qv_start_definition_header [of line nm k s] Some g k by (auto simp: locals_ok_def)
next
  case None
  show ?thesis using qv_start_definition_other [OF None, of s] assms by (auto simp: locals_ok_def)
qed

lemma qv_loop_body_ok:
  assumes "locals_ok s"
  shows "\<exists>s'. qv_loop_body s line = Inr s' \<and> locals_ok s' \<and> (\<exists>ds. definitions s' = definitions s @ ds)"
proof (cases "strip line = []")
  case True
  then show ?thesis using assms by (simp add: qv_loop_body_blank)
next
  case False
  show ?thesis
  proof (cases "in_definition s")
    case idle: False
    then have "vals s = []" using assms by (simp add: locals_ok_def)
    then show ?thesis
      using qv_start_definition_ok [OF idle, of line] qv_loop_body_idle [OF False idle] by auto
  next
    case True
    then obtain n k where n: "name s = Some n" and k: "kind s = Some k"
      using assms by (auto simp: locals_ok_def)
    show ?thesis
    proof (cases "re_match P_VALUE line")
      case (Some g)
      then have "re_match P_VALUE line \<noteq> None" by simp
      from qv_loop_body_value [OF False True this] show ?thesis
        using assms True by (simp add: locals_ok_def)
    next
      case None
      let ?s0 = "s\<lparr>definitions := definitions s @
                   [[(''name'', Str n), (''kind'', Str k), (''values'', StrList (vals s))]],
                 in_definition := False, vals := []\<rparr>"
      have "\<not> in_definition ?s0" and "vals ?s0 = []" by simp_all
      from qv_start_definition_ok [OF this, of line] obtain s' where
        h: "qv_start_definition ?s0 line = Inr s'" and ok: "locals_ok s'" and d: "definitions s' = definitions ?s0"
        by blast
      show ?thesis
        using qv_loop_body_end [OF False True None n k] h ok d by simp
    qed
  qed
qed

lemma qv_for_lines_ok:
  assumes "locals_ok s"
  shows "\<exists>s'. qv_for_lines s ls = Inr s' \<and> locals_ok s' \<and> (\<exists>ds. definitions s' = definitions s @ ds)"
  using assms
proof (induction ls arbitrary: s)
  case Nil
  then show ?case by simp
next
  case (Cons l ls)
  from qv_loop_body_ok [OF Cons.prems, of l] obtain s1 ds1 where
    1: "qv_loop_body s l = Inr s1" and ok1: "locals_ok s1" and d1: "definitions s1 = definitions s @ ds1"
    by blast
  from Cons.IH [OF ok1] obtain s2 ds2 where
    2: "qv_for_lines s1 ls = Inr s2" and ok2: "locals_ok s2" and d2: "definitions s2 = definitions s1 @ ds2"
    by blast
  show ?case using 1 2 ok2 d1 d2 by simp
qed

lemma qv_for_lines_reach:
  assumes "qv_for_lines init_locals ls = Inr s"
  shows "locals_ok s"
  using qv_for_lines_ok [OF locals_ok_init, of ls] assms by auto

lemma for_lines_blank:
  assumes "strip b = []"
  shows "for_lines s (xs @ b # ys) = for_lines s (xs @ ys)"
proof -
  have "for_lines s' (b # ys) = for_lines s' ys" for s'
    using assms by (simp add: loop_body_blank)
  then show ?thesis by (simp add: for_lines_append del: for_lines.simps)
qed

lemma qv_for_lines_blank:
  assumes "strip b = []"
  shows "qv_for_lines s (xs @ b # ys) = qv_for_lines s (xs @ ys)"
proof -
  have "qv_for_lines s' (b # ys) = qv_for_lines s' ys" for s'
    using assms by (simp add: qv_loop_body_blank)
  then show ?thesis by (simp add: qv_for_lines_append del: qv_for_lines.simps)
qed

lemma for_lines_filter: "for_lines s (filter (\<lambda>l. strip l \<noteq> []) ls) = for_lines s ls"
proof (induction ls arbitrary: s)
  case Nil
  show ?case by simp
next
  case (Cons l ls)
  show ?case
  proof (cases "strip l = []")
    case True
    then show ?thesis using Cons.IH [of s] by (simp add: loop_body_blank)
  next
    case False
    then show ?thesis using Cons.IH by simp
  qed
qed

lemma qv_for_lines_filter: "qv_for_lines s (filter (\<lambda>l. strip l \<noteq> []) ls) = qv_for_lines s ls"
proof (induction ls arbitrary: s)
  case Nil
  show ?case by simp
next
  case (Cons l ls)
  show ?case
  proof (cases "strip l = []")
    case True
    then show ?thesis using Cons.IH [of s] by (simp add: qv_loop_body_blank)
  next
    case False
    then show ?thesis using Cons.IH by simp
  qed
qed

lemma re_match_qualitative_nonblank:
  assumes "re_match P_QUALITATIVE line = Some g"
  shows "strip line \<noteq> []"
  using header_match_nonblank [of "''Nominal''" "''Ordinal''" True line g] assms
  by (simp add: P_QUALITATIVE_header)

lemma re_match_qv_nonblank:
  assumes "re_match qv_P_QUANTITATIVE line = Some g"
  shows "strip line \<noteq> []"
  using header_match_nonblank [of "''Nominal''" "''Ordinal''" False line g] assms
  by (simp add: qv_P_QUANTITATIVE_header)

text \<open>A qualitative header read from a reachable state opens a definition with no values.\<close>

lemma loop_body_header:
  assumes ok: "locals_ok s"
    and hv: "in_definition s \<longrightarrow> re_match P_VALUE hdr = None"
    and h: "re_match P_QUALITATIVE hdr = Some [(''name'', nm), (''kind'', k)]"
  shows "\<exists>s1. loop_body s hdr = Inr s1 \<and> in_definition s1 \<and> name s1 = Some (strip nm)
            \<and> kind s1 = Some k \<and> vals s1 = []
            \<and> (\<exists>ds. definitions s1 = definitions s @ ds)"
proof -
  have nb: "strip hdr \<noteq> []" using re_match_qualitative_nonblank [OF h] .
  show ?thesis
  proof (cases "in_definition s")
    case False
    then have "vals s = []" using ok by (simp add: locals_ok_def)
    then show ?thesis
      using loop_body_idle [OF nb False] headers_qualitative [OF h, of s] by simp
  next
    case True
    then obtain n k' where n: "name s = Some n" and k: "kind s = Some k'"
      using ok by (auto simp: locals_ok_def)
    from hv True have v: "re_match P_VALUE hdr = None" by simp
    show ?thesis
      using loop_body_end [OF nb True v n k] headers_qualitative [OF h] by simp
  qed
qed

lemma qv_loop_body_header:
  assumes ok: "locals_ok s"
    and hv: "in_definition s \<longrightarrow> re_match P_VALUE hdr = None"
    and h: "re_match qv_P_QUANTITATIVE hdr = Some [(''name'', nm), (''kind'', k)]"
  shows "\<exists>s1. qv_loop_body s hdr = Inr s1 \<and> in_definition s1 \<and> name s1 = Some (strip nm)
            \<and> kind s1 = Some k \<and> vals s1 = []
            \<and> (\<exists>ds. definitions s1 = definitions s @ ds)"
proof -
  have nb: "strip hdr \<noteq> []" using re_match_qv_nonblank [OF h] .
  show ?thesis
  proof (cases "in_definition s")
    case False
    then have "vals s = []" using ok by (simp add: locals_ok_def)
    then show ?thesis
      using qv_loop_body_idle [OF nb False] qv_start_definition_header [OF h, of s] by simp
  next
    case True
    then obtain n k' where n: "name s = Some n" and k: "kind s = Some k'"
      using ok by (auto simp: locals_ok_def)
    from hv True have v: "re_match P_VALUE hdr = None" by simp
    show ?thesis
      using qv_loop_body_end [OF nb True v n k] qv_start_definition_header [OF h] by simp
  qed
qed

text \<open>The end of the input while a definition is open.\<close>

lemma parse_lines_open_end:
  assumes pre: "for_lines init_locals pre = Inr s"
    and hv: "in_definition s \<longrightarrow> re_match P_VALUE hdr = None"
    and h: "re_match P_QUALITATIVE hdr = Some [(''name'', nm), (''kind'', k)]"
    and body: "value_lines body"
  shows "\<exists>s1. loop_body s hdr = Inr s1 \<and> in_definition s1 \<and> name s1 = Some (strip nm)
            \<and> kind s1 = Some k
            \<and> for_lines init_locals (pre @ hdr # body) = Inr (s1\<lparr>vals := line_values body\<rparr>)
            \<and> parse_lines (pre @ hdr # body) = Inr (definitions s1)"
proof -
  from loop_body_header [OF for_lines_reach [OF pre] hv h] obtain s1 where
    1: "loop_body s hdr = Inr s1" and o: "in_definition s1" and n: "name s1 = Some (strip nm)"
    and k: "kind s1 = Some k" and v: "vals s1 = []"
    by blast
  have r: "for_lines init_locals (pre @ hdr # body) = Inr (s1\<lparr>vals := line_values body\<rparr>)"
    using pre 1 for_lines_body [OF o body] v by (simp add: for_lines_append)
  then have "parse_lines (pre @ hdr # body) = Inr (definitions s1)"
    by (simp add: parse_lines_def)
  then show ?thesis using 1 o n k r by blast
qed

lemma qv_parse_lines_open_end:
  assumes pre: "qv_for_lines init_locals pre = Inr s"
    and hv: "in_definition s \<longrightarrow> re_match P_VALUE hdr = None"
    and h: "re_match qv_P_QUANTITATIVE hdr = Some [(''name'', nm), (''kind'', k)]"
    and body: "value_lines body"
  shows "\<exists>s1. qv_loop_body s hdr = Inr s1 \<and> in_definition s1 \<and> name s1 = Some (strip nm)
            \<and> kind s1 = Some k
            \<and> qv_for_lines init_locals (pre @ hdr # body) = Inr (s1\<lparr>vals := line_values body\<rparr>)
            \<and> qv_parse_lines (pre @ hdr # body) = Inr (definitions s1)"
proof -
  from qv_loop_body_header [OF qv_for_lines_reach [OF pre] hv h] obtain s1 where
    1: "qv_loop_body s hdr = Inr s1" and o: "in_definition s1" and n: "name s1 = Some (strip nm)"
    and k: "kind s1 = Some k" and v: "vals s1 = []"
    by blast
  have r: "qv_for_lines init_locals (pre @ hdr # body) = Inr (s1\<lparr>vals := line_values body\<rparr>)"
    using pre 1 qv_for_lines_body [OF o body] v by (simp add: qv_for_lines_append)
  then have "qv_parse_lines (pre @ hdr # body) = Inr (definitions s1)"
    by (simp add: qv_parse_lines_def)
  then show ?thesis using 1 o n k r by blast
qed

text \<open>A terminating line after the body emits the definition.\<close>

lemma parse_lines_emits:
  assumes pre: "for_lines init_locals pre = Inr s"
    and hv: "in_definition s \<longrightarrow> re_match P_VALUE hdr = None"
    and h: "re_match P_QUALITATIVE hdr = Some [(''name'', nm), (''kind'', k)]"
    and body: "value_lines body"
    and t: "strip t \<noteq> []" "re_match P_VALUE t = None"
  shows "\<exists>s1 ds. loop_body s hdr = Inr s1
            \<and> parse_lines (pre @ hdr # body @ t # post)
              = Inr (definitions s1 @
                     [(''name'', Str (strip nm)), (''kind'', Str k), (''values'', StrList (line_values body))] # ds)"
proof -
  from parse_lines_open_end [OF pre hv h body] obtain s1 where
    1: "loop_body s hdr = Inr s1" and o: "in_definition s1" and n: "name s1 = Some (strip nm)"
    and k: "kind s1 = Some k"
    and r: "for_lines init_locals (pre @ hdr # body) = Inr (s1\<lparr>vals := line_values body\<rparr>)"
    by blast
  let ?s2 = "s1\<lparr>vals := line_values body\<rparr>"
  let ?d = "[(''name'', Str (strip nm)), (''kind'', Str k), (''values'', StrList (line_values body))]"
  let ?s3 = "?s2\<lparr>definitions := definitions ?s2 @ [?d], in_definition := False, vals := []\<rparr>"
  have e: "loop_body ?s2 t = headers ?s3 t"
    using loop_body_end [OF t(1) _ t(2), of ?s2 "strip nm" k] o n k by simp
  have "\<not> in_definition ?s3" and "vals ?s3 = []" by simp_all
  from headers_ok [OF this, of t] obtain s4 ds4 where
    4: "headers ?s3 t = Inr s4" and ok4: "locals_ok s4" and d4: "definitions s4 = definitions ?s3 @ ds4"
    by blast
  from for_lines_ok [OF ok4, of post] obtain s5 ds5 where
    5: "for_lines s4 post = Inr s5" and d5: "definitions s5 = definitions s4 @ ds5"
    by blast
  have "for_lines init_locals ((pre @ hdr # body) @ t # post)
        = then_do (for_lines init_locals (pre @ hdr # body)) (\<lambda>s'. for_lines s' (t # post))"
    by (rule for_lines_append)
  also have "\<dots> = Inr s5"
    unfolding r using e 4 5 by simp
  finally have "for_lines init_locals (pre @ hdr # body @ t # post) = Inr s5"
    by simp
  then have "parse_lines (pre @ hdr # body @ t # post) = Inr (definitions s1 @ ?d # (ds4 @ ds5))"
    using d4 d5 by (simp add: parse_lines_def)
  then show ?thesis using 1 by blast
qed

lemma qv_parse_lines_emits:
  assumes pre: "qv_for_lines init_locals pre = Inr s"
    and hv: "in_definition s \<longrightarrow> re_match P_VALUE hdr = None"
    and h: "re_match qv_P_QUANTITATIVE hdr = Some [(''name'', nm), (''kind'', k)]"
    and body: "value_lines body"
    and t: "strip t \<noteq> []" "re_match P_VALUE t = None"
  shows "\<exists>s1 ds. qv_loop_body s hdr = Inr s1
            \<and> qv_parse_lines (pre @ hdr # body @ t # post)
              = Inr (definitions s1 @
                     [(''name'', Str (strip nm)), (''kind'', Str k), (''values'', StrList (line_values body))] # ds)"
proof -
  from qv_parse_lines_open_end [OF pre hv h body] obtain s1 where
    1: "qv_loop_body s hdr = Inr s1" and o: "in_definition s1" and n: "name s1 = Some (strip nm)"
    and k: "kind s1 = Some k"
    and r: "qv_for_lines init_locals (pre @ hdr # body) = Inr (s1\<lparr>vals := line_values body\<rparr>)"
    by blast
  let ?s2 = "s1\<lparr>vals := line_values body\<rparr>"
  let ?d = "[(''name'', Str (strip nm)), (''kind'', Str k), (''values'', StrList (line_values body))]"
  let ?s3 = "?s2\<lparr>definitions := definitions ?s2 @ [?d], in_definition := False, vals := []\<rparr>"
  have e: "qv_loop_body ?s2 t = qv_start_definition ?s3 t"
    using qv_loop_body_end [OF t(1) _ t(2), of ?s2 "strip nm" k] o n k by simp
  have "\<not> in_definition ?s3" and "vals ?s3 = []" by simp_all
  from qv_start_definition_ok [OF this, of t] obtain s4 where
    4: "qv_start_definition ?s3 t = Inr s4" and ok4: "locals_ok s4" and d4: "definitions s4 = definitions ?s3"
    by blast
  from qv_for_lines_ok [OF ok4, of post] obtain s5 ds5 where
    5: "qv_for_lines s4 post = Inr s5" and d5: "definitions s5 = definitions s4 @ ds5"
    by blast
  have "qv_for_lines init_locals ((pre @ hdr # body) @ t # post)
        = then_do (qv_for_lines init_locals (pre @ hdr # body)) (\<lambda>s'. qv_for_lines s' (t # post))"
    by (rule qv_for_lines_append)
  also have "\<dots> = Inr s5"
    unfolding r using e 4 5 by simp
  finally have "qv_for_lines init_locals (pre @ hdr # body @ t # post) = Inr s5"
    by simp
  then have "qv_parse_lines (pre @ hdr # body @ t # post) = Inr (definitions s1 @ ?d # ds5)"
    using d4 d5 by (simp add: qv_parse_lines_def)
  then show ?thesis using 1 by blast
qed

lemma headers_vals:
  assumes "headers s line = Inr s'"
  shows "vals s' = vals s"
proof (cases "re_match P_QUALITATIVE line")
  case (Some g)
  then obtain nm k where g: "g = [(''name'', nm), (''kind'', k)]"
    using re_match_qualitative_form by blast
  show ?thesis using headers_qualitative [of line nm k s] Some g assms by auto
next
  case None
  show ?thesis
  proof (cases "re_match P_QUANTITATIVE line")
    case (Some g)
    then obtain nm k where g: "g = [(''name'', nm), (''kind'', k)]"
      using re_match_quantitative_form by blast
    show ?thesis using headers_quantitative [of line nm k s] Some g assms by auto
  next
    case n: None
    show ?thesis using headers_neither [OF None n, of s] assms by auto
  qed
qed

lemma re_match_value_iff:
  "re_match P_VALUE line \<noteq> None \<longleftrightarrow>
     take 7 line = replicate 7 SPC \<and> 7 < length line \<and> line ! 7 \<noteq> TAB \<and> TAB \<in> set line"
  by (simp only: P_VALUE_value value_match_Some_iff)

subsection \<open>Two runs that differ in unread variables\<close>

lemma headers_agree:
  assumes "\<not> in_definition s" and "vals s = []" and "agree s t"
  shows "\<exists>s' t'. headers s line = Inr s' \<and> headers t line = Inr t' \<and> locals_ok s' \<and> agree s' t'"
proof (cases "re_match P_QUALITATIVE line")
  case (Some g)
  then obtain nm k where g: "g = [(''name'', nm), (''kind'', k)]" and k: "k = ''Nominal'' \<or> k = ''Ordinal''"
    using re_match_qualitative_form by blast
  show ?thesis
    using headers_qualitative [of line nm k s] headers_qualitative [of line nm k t] Some g k assms
    by (auto simp: locals_ok_def agree_def)
next
  case None
  show ?thesis
  proof (cases "re_match P_QUANTITATIVE line")
    case (Some g)
    then obtain nm k where g: "g = [(''name'', nm), (''kind'', k)]"
      using re_match_quantitative_form by blast
    show ?thesis
      using headers_quantitative [of line nm k s] headers_quantitative [of line nm k t] Some g assms
      by (auto simp: locals_ok_def agree_def)
  next
    case n: None
    show ?thesis
      using headers_neither [OF None n, of s] headers_neither [OF None n, of t] assms
      by (auto simp: locals_ok_def agree_def)
  qed
qed

lemma loop_body_agree:
  assumes ok: "locals_ok s" and ag: "agree s t"
  shows "\<exists>s' t'. loop_body s line = Inr s' \<and> loop_body t line = Inr t' \<and> locals_ok s' \<and> agree s' t'"
proof (cases "strip line = []")
  case True
  then show ?thesis using assms by (simp add: loop_body_blank)
next
  case False
  show ?thesis
  proof (cases "in_definition s")
    case idle: False
    then have v: "vals s = []" using ok by (simp add: locals_ok_def)
    have idle': "\<not> in_definition t" using idle ag by (simp add: agree_def)
    show ?thesis
      using headers_agree [OF idle v ag, of line] loop_body_idle [OF False idle]
        loop_body_idle [OF False idle'] by simp
  next
    case True
    then have True': "in_definition t" using ag by (simp add: agree_def)
    from True obtain n k where n: "name s = Some n" and k: "kind s = Some k"
      using ok by (auto simp: locals_ok_def)
    then have n': "name t = Some n" and k': "kind t = Some k"
      using ag True by (simp_all add: agree_def)
    show ?thesis
    proof (cases "re_match P_VALUE line")
      case (Some g)
      then have m: "re_match P_VALUE line \<noteq> None" by simp
      show ?thesis
        using loop_body_value [OF False True m] loop_body_value [OF False True' m] ok ag True
        by (simp add: locals_ok_def agree_def)
    next
      case None
      let ?d = "[(''name'', Str n), (''kind'', Str k), (''values'', StrList (vals s))]"
      let ?s0 = "s\<lparr>definitions := definitions s @ [?d], in_definition := False, vals := []\<rparr>"
      let ?t0 = "t\<lparr>definitions := definitions t @ [?d], in_definition := False, vals := []\<rparr>"
      have a0: "agree ?s0 ?t0" using ag by (simp add: agree_def)
      have "\<not> in_definition ?s0" and "vals ?s0 = []" by simp_all
      from headers_agree [OF this a0, of line] obtain s' t' where
        h: "headers ?s0 line = Inr s'" "headers ?t0 line = Inr t'" "locals_ok s'" "agree s' t'"
        by blast
      have vt: "vals t = vals s" using ag by (simp add: agree_def)
      show ?thesis
        using loop_body_end [OF False True None n k] loop_body_end [OF False True' None n' k'] h vt
        by simp
    qed
  qed
qed

lemma for_lines_agree:
  assumes "locals_ok s" and "agree s t"
  shows "\<exists>s' t'. for_lines s ls = Inr s' \<and> for_lines t ls = Inr t' \<and> agree s' t'"
  using assms
proof (induction ls arbitrary: s t)
  case Nil
  then show ?case by simp
next
  case (Cons l ls)
  from loop_body_agree [OF Cons.prems, of l] obtain s1 t1 where
    1: "loop_body s l = Inr s1" "loop_body t l = Inr t1" "locals_ok s1" "agree s1 t1"
    by blast
  from Cons.IH [OF 1(3,4)] show ?case using 1(1,2) by simp
qed

section \<open>Facts about the loader\<close>

lemma make_pair_ok:
  assumes "map_of d ''name'' = Some n" and "map_of d ''kind'' = Some k"
  shows "make_pair d = Inr (n, expected_attrs d)"
proof (cases "map_of d ''values''")
  case None
  then have "''values'' \<notin> fst ` set d" by (simp add: map_of_eq_None_iff)
  then show ?thesis using assms None by (simp add: make_pair_def getitem_def expected_attrs_def)
next
  case (Some v)
  then have "''values'' \<in> fst ` set d" by (metis map_of_eq_None_iff option.distinct(1))
  then show ?thesis using assms Some by (simp add: make_pair_def getitem_def expected_attrs_def)
qed

lemma make_pairs_ok:
  assumes "map (\<lambda>d. map_of d ''name'') defs = map (\<lambda>n. Some (Str n)) names"
    and "\<forall>d\<in>set defs. map_of d ''kind'' \<noteq> None"
  shows "make_pairs defs = Inr (zip (map Str names) (map expected_attrs defs))"
  using assms
proof (induction defs arbitrary: names)
  case Nil
  then show ?case by simp
next
  case (Cons d defs)
  from Cons.prems(1) obtain n ns where names: "names = n # ns" by (cases names) auto
  from Cons.prems(1) names have n: "map_of d ''name'' = Some (Str n)"
    and r: "map (\<lambda>d. map_of d ''name'') defs = map (\<lambda>n. Some (Str n)) ns"
    by simp_all
  from Cons.prems(2) obtain k where k: "map_of d ''kind'' = Some k" by auto
  from Cons.prems(2) have "\<forall>d\<in>set defs. map_of d ''kind'' \<noteq> None" by simp
  from Cons.IH [OF r this] show ?case
    using make_pair_ok [OF n k] names by simp
qed

lemma fst_setitem:
  "map fst (setitem od n a) = (if n \<in> set (map fst od) then map fst od else map fst od @ [n])"
  by (induction od) force+

lemma map_of_setitem: "map_of (setitem od n a) = (map_of od)(n \<mapsto> a)"
  by (induction od) (auto simp: fun_eq_iff)

lemma remdups_skip: "n \<in> set ys \<Longrightarrow> remdups (xs @ n # ys) = remdups (xs @ ys)"
  by (induction xs) auto

lemma OrderedDict_strs:
  "\<exists>od'. OrderedDict od (zip (map Str ns) as) = Inr od'
     \<and> (distinct (map fst od) \<longrightarrow> map fst od' = rev (remdups (rev (map fst od @ map fst (zip ns as)))))
     \<and> map_of od' = map_of (rev (zip ns as) @ od)"
proof (induction ns arbitrary: od as)
  case Nil
  show ?case by (simp add: distinct_remdups_id)
next
  case (Cons n ns)
  show ?case
  proof (cases as)
    case Nil
    then show ?thesis by (simp add: distinct_remdups_id)
  next
    case (Cons a as')
    from Cons.IH [of "setitem od n a" as'] obtain od' where
      1: "OrderedDict (setitem od n a) (zip (map Str ns) as') = Inr od'"
      and 2: "distinct (map fst (setitem od n a)) \<longrightarrow>
              map fst od' = rev (remdups (rev (map fst (setitem od n a) @ map fst (zip ns as'))))"
      and 3: "map_of od' = map_of (rev (zip ns as') @ setitem od n a)"
      by blast
    have d: "distinct (map fst (setitem od n a))" if "distinct (map fst od)"
      using that by (simp add: fst_setitem)
    have k: "rev (remdups (rev (map fst (setitem od n a) @ map fst (zip ns as'))))
           = rev (remdups (rev (map fst od @ n # map fst (zip ns as'))))"
    proof (cases "n \<in> set (map fst od)")
      case False
      then show ?thesis by (simp add: fst_setitem)
    next
      case True
      then have "n \<in> set (rev (map fst od))" by simp
      from remdups_skip [OF this, of "rev (map fst (zip ns as'))"] True
      show ?thesis by (simp add: fst_setitem)
    qed
    have m: "map_of (rev (zip ns as') @ setitem od n a) = map_of (rev (zip (n # ns) as) @ od)"
      using Cons by (simp add: map_of_setitem fun_eq_iff map_add_def split: option.splits)
    show ?thesis
      using 1 2 3 d k m Cons by simp
  qed
qed

lemma setitem_fresh: "n \<notin> set (map fst od) \<Longrightarrow> setitem od n a = od @ [(n, a)]"
  by (induction od) auto

lemma OrderedDict_distinct:
  assumes "distinct ns" and "set ns \<inter> set (map fst od) = {}"
  shows "OrderedDict od (zip (map Str ns) as) = Inr (od @ zip ns as)"
  using assms
proof (induction ns arbitrary: od as)
  case Nil
  show ?case by simp
next
  case (Cons n ns)
  show ?case
  proof (cases as)
    case Nil
    then show ?thesis by simp
  next
    case (Cons a as')
    have f: "n \<notin> set (map fst od)" using Cons.prems(2) by auto
    have "set ns \<inter> set (map fst (od @ [(n, a)])) = {}"
      using Cons.prems by auto
    from Cons.IH [OF _ this, of as'] Cons.prems(1) show ?thesis
      using Cons f by (simp add: setitem_fresh)
  qed
qed

lemma is_qualitative_True:
  "is_qualitative attrs = Inr True \<longleftrightarrow>
     map_of attrs ''kind'' = Some (Str ''Nominal'') \<or> map_of attrs ''kind'' = Some (Str ''Ordinal'')"
  by (cases "map_of attrs ''kind''") (auto simp: is_qualitative_def getitem_def then_do_def)

lemma is_quantitative_True:
  "is_quantitative attrs = Inr True \<longleftrightarrow>
     map_of attrs ''kind'' = Some (Str ''Discrete'') \<or> map_of attrs ''kind'' = Some (Str ''Continuous'')"
  by (cases "map_of attrs ''kind''") (auto simp: is_quantitative_def getitem_def then_do_def)

section \<open>The records and the lines they come from\<close>

lemma qualitative_in_snoc:
  assumes "qualitative_in ls d"
  shows "qualitative_in (ls @ [l]) d"
proof -
  from assms obtain pre hdr body post nm k where
    "ls = pre @ hdr # body @ post"
    "re_match P_QUALITATIVE hdr = Some [(''name'', nm), (''kind'', k)]"
    "value_lines body"
    "d = [(''name'', Str (strip nm)), (''kind'', Str k), (''values'', StrList (line_values body))]"
    unfolding qualitative_in_def by blast
  then have "ls @ [l] = pre @ hdr # body @ (post @ [l])
      \<and> re_match P_QUALITATIVE hdr = Some [(''name'', nm), (''kind'', k)]
      \<and> value_lines body
      \<and> d = [(''name'', Str (strip nm)), (''kind'', Str k), (''values'', StrList (line_values body))]"
    by simp
  then show ?thesis unfolding qualitative_in_def by blast
qed

lemma record_ok_snoc:
  assumes "record_ok ls d"
  shows "record_ok (ls @ [l]) d"
proof -
  from assms have
    "(\<exists>n k vs. d = [(''name'', Str n), (''kind'', Str k), (''values'', StrList vs)]
        \<and> (k = ''Nominal'' \<or> k = ''Ordinal'') \<and> qualitative_in ls d)
     \<or> (\<exists>n k. d = [(''name'', Str n), (''kind'', Str k)] \<and> (k = ''Discrete'' \<or> k = ''Continuous''))"
    unfolding record_ok_def .
  then show ?thesis
  proof
    assume "\<exists>n k vs. d = [(''name'', Str n), (''kind'', Str k), (''values'', StrList vs)]
        \<and> (k = ''Nominal'' \<or> k = ''Ordinal'') \<and> qualitative_in ls d"
    then obtain n k vs where
      d: "d = [(''name'', Str n), (''kind'', Str k), (''values'', StrList vs)]"
      and k: "k = ''Nominal'' \<or> k = ''Ordinal''" and q: "qualitative_in ls d"
      by auto
    have "d = [(''name'', Str n), (''kind'', Str k), (''values'', StrList vs)]
        \<and> (k = ''Nominal'' \<or> k = ''Ordinal'') \<and> qualitative_in (ls @ [l]) d"
      using d k qualitative_in_snoc [OF q] by simp
    then have "\<exists>n k vs. d = [(''name'', Str n), (''kind'', Str k), (''values'', StrList vs)]
        \<and> (k = ''Nominal'' \<or> k = ''Ordinal'') \<and> qualitative_in (ls @ [l]) d"
      by (intro exI)
    then show ?thesis unfolding record_ok_def by (rule disjI1)
  next
    assume "\<exists>n k. d = [(''name'', Str n), (''kind'', Str k)] \<and> (k = ''Discrete'' \<or> k = ''Continuous'')"
    then show ?thesis unfolding record_ok_def by (rule disjI2)
  qed
qed

lemma record_ok_quantitative:
  assumes "k = ''Discrete'' \<or> k = ''Continuous''"
  shows "record_ok ls [(''name'', Str n), (''kind'', Str k)]"
  unfolding record_ok_def using assms by simp

lemma record_ok_qualitative:
  assumes "k = ''Nominal'' \<or> k = ''Ordinal''"
    and "qualitative_in ls [(''name'', Str n), (''kind'', Str k), (''values'', StrList vs)]"
  shows "record_ok ls [(''name'', Str n), (''kind'', Str k), (''values'', StrList vs)]"
  unfolding record_ok_def using assms by simp

lemma value_lines_snoc:
  "value_lines (body @ [l]) \<longleftrightarrow> value_lines body \<and> (strip l = [] \<or> re_match P_VALUE l \<noteq> None)"
  by (auto simp: value_lines_def)

lemma value_lines_Nil [simp]: "value_lines []"
  by (simp add: value_lines_def)

lemma headers_records:
  assumes idle: "\<not> in_definition s" and novals: "vals s = []"
    and recs: "\<forall>d\<in>set (definitions s). record_ok (ls @ [line]) d"
    and h: "headers s line = Inr s'"
  shows "pending_ok (ls @ [line]) s' \<and> (\<forall>d\<in>set (definitions s'). record_ok (ls @ [line]) d)"
proof (cases "re_match P_QUALITATIVE line")
  case (Some g)
  then obtain nm k where g: "g = [(''name'', nm), (''kind'', k)]"
    using re_match_qualitative_form by blast
  have s': "s' = s\<lparr>name := Some (strip nm), kind := Some k, in_definition := True\<rparr>"
    using headers_qualitative [of line nm k s] Some g h by simp
  have "ls @ [line] = ls @ line # []
      \<and> re_match P_QUALITATIVE line = Some [(''name'', nm), (''kind'', k)]
      \<and> value_lines []
      \<and> name s' = Some (strip nm) \<and> kind s' = Some k"
    using Some g s' by simp
  moreover have "vals s' = line_values []"
    using novals headers_vals [OF h] by simp
  ultimately have "pending_ok (ls @ [line]) s'"
    unfolding pending_ok_def by blast
  then show ?thesis using recs s' by simp
next
  case None
  show ?thesis
  proof (cases "re_match P_QUANTITATIVE line")
    case (Some g)
    then obtain nm k where g: "g = [(''name'', nm), (''kind'', k)]"
      and k: "k = ''Discrete'' \<or> k = ''Continuous''"
      using re_match_quantitative_form by blast
    have s': "s' = s\<lparr>name := Some (strip nm), kind := Some k,
                   definitions := definitions s @ [[(''name'', Str (strip nm)), (''kind'', Str k)]]\<rparr>"
      using headers_quantitative [of line nm k s] Some g h by simp
    have "record_ok (ls @ [line]) [(''name'', Str (strip nm)), (''kind'', Str k)]"
      using k by (rule record_ok_quantitative)
    then show ?thesis using recs s' idle by (simp add: pending_ok_def)
  next
    case n: None
    have "s' = s" using headers_neither [OF None n, of s] h by simp
    then show ?thesis using recs idle by (simp add: pending_ok_def)
  qed
qed

lemma loop_body_records:
  assumes ok: "locals_ok s"
    and pend: "pending_ok ls s"
    and recs: "\<forall>d\<in>set (definitions s). record_ok ls d"
    and step: "loop_body s line = Inr s'"
  shows "pending_ok (ls @ [line]) s' \<and> (\<forall>d\<in>set (definitions s'). record_ok (ls @ [line]) d)"
proof -
  have recs': "\<forall>d\<in>set (definitions s). record_ok (ls @ [line]) d"
    using recs record_ok_snoc by blast
  show ?thesis
  proof (cases "in_definition s")
    case idle: False
    show ?thesis
    proof (cases "strip line = []")
      case True
      then have "s' = s" using step by (simp add: loop_body_blank)
      then show ?thesis using recs' idle by (simp add: pending_ok_def)
    next
      case False
      then have "headers s line = Inr s'" using step loop_body_idle [OF False idle] by simp
      moreover have "vals s = []" using ok idle by (simp add: locals_ok_def)
      ultimately show ?thesis using headers_records [OF idle _ recs'] by blast
    qed
  next
    case True
    from pend True obtain pre hdr body nm k where
      ls: "ls = pre @ hdr # body"
      and hdr: "re_match P_QUALITATIVE hdr = Some [(''name'', nm), (''kind'', k)]"
      and body: "value_lines body"
      and n: "name s = Some (strip nm)" and k: "kind s = Some k" and v: "vals s = line_values body"
      unfolding pending_ok_def by blast
    show ?thesis
    proof (cases "strip line = []")
      case blank: True
      then have s': "s' = s" using step by (simp add: loop_body_blank)
      have "ls @ [line] = pre @ hdr # (body @ [line])
          \<and> re_match P_QUALITATIVE hdr = Some [(''name'', nm), (''kind'', k)]
          \<and> value_lines (body @ [line])
          \<and> name s = Some (strip nm) \<and> kind s = Some k \<and> vals s = line_values (body @ [line])"
        using ls hdr body n k v blank
        by (simp add: value_lines_snoc line_values_append line_values_blank)
      then have "pending_ok (ls @ [line]) s" unfolding pending_ok_def by blast
      then show ?thesis using s' recs' by simp
    next
      case False
      show ?thesis
      proof (cases "re_match P_VALUE line")
        case (Some g)
        then have m: "re_match P_VALUE line \<noteq> None" by simp
        have s': "s' = s\<lparr>vals := vals s @ [strip (drop 7 (takeWhile (\<lambda>c. c \<noteq> TAB) line))]\<rparr>"
          using loop_body_value [OF False True m] step by simp
        have "ls @ [line] = pre @ hdr # (body @ [line])
            \<and> re_match P_QUALITATIVE hdr = Some [(''name'', nm), (''kind'', k)]
            \<and> value_lines (body @ [line])
            \<and> name s' = Some (strip nm) \<and> kind s' = Some k \<and> vals s' = line_values (body @ [line])"
          using ls hdr body n k v m False s'
          by (simp add: value_lines_snoc line_values_append line_values_value)
        then have "pending_ok (ls @ [line]) s'" unfolding pending_ok_def by blast
        then show ?thesis using s' recs' by simp
      next
        case None
        let ?d = "[(''name'', Str (strip nm)), (''kind'', Str k), (''values'', StrList (vals s))]"
        let ?s0 = "s\<lparr>definitions := definitions s @ [?d], in_definition := False, vals := []\<rparr>"
        have h: "headers ?s0 line = Inr s'"
          using loop_body_end [OF False True None n k] step by simp
        have kk: "k = ''Nominal'' \<or> k = ''Ordinal''"
          using re_match_qualitative_form [OF hdr] by simp
        have "ls @ [line] = pre @ hdr # body @ [line]
            \<and> re_match P_QUALITATIVE hdr = Some [(''name'', nm), (''kind'', k)]
            \<and> value_lines body
            \<and> ?d = [(''name'', Str (strip nm)), (''kind'', Str k), (''values'', StrList (line_values body))]"
          using ls hdr body v by simp
        then have "qualitative_in (ls @ [line]) ?d"
          unfolding qualitative_in_def by blast
        then have "record_ok (ls @ [line]) ?d"
          using v by (simp add: record_ok_qualitative [OF kk])
        then have r0: "\<forall>d\<in>set (definitions ?s0). record_ok (ls @ [line]) d"
          using recs' by simp
        have "\<not> in_definition ?s0" and "vals ?s0 = []" by simp_all
        from headers_records [OF this r0 h] show ?thesis .
      qed
    qed
  qed
qed

lemma for_lines_records:
  assumes "locals_ok s" and "pending_ok ls s" and "\<forall>d\<in>set (definitions s). record_ok ls d"
    and "for_lines s rest = Inr s'"
  shows "\<forall>d\<in>set (definitions s'). record_ok (ls @ rest) d"
  using assms
proof (induction rest arbitrary: s ls)
  case Nil
  then show ?case by simp
next
  case (Cons l rest)
  from loop_body_ok [OF Cons.prems(1), of l] obtain s1 where
    1: "loop_body s l = Inr s1" and ok1: "locals_ok s1"
    by blast
  from loop_body_records [OF Cons.prems(1,2,3) 1]
  have p1: "pending_ok (ls @ [l]) s1" and r1: "\<forall>d\<in>set (definitions s1). record_ok (ls @ [l]) d"
    by simp_all
  have "for_lines s1 rest = Inr s'" using Cons.prems(4) 1 by simp
  from Cons.IH [OF ok1 p1 r1 this] show ?case by simp
qed

lemma first_disjunct:
  assumes "\<exists>n k. P n \<and> K k \<and> (A k \<and> V \<and> Q \<or> B k \<and> X)" and "\<not> X"
  shows "Q"
  using assms by blast

section \<open>Facts about the lines of a file\<close>

lemma universal_newlines_Cons: "x \<noteq> CR \<Longrightarrow> universal_newlines (x # t) = x # universal_newlines t"
  by (cases t) simp_all

lemma universal_newlines_append:
  "CR \<notin> set c \<Longrightarrow> universal_newlines (c @ t) = c @ universal_newlines t"
proof (induction c)
  case Nil
  show ?case by simp
next
  case (Cons x c)
  then have "x \<noteq> CR" and "CR \<notin> set c" by auto
  then show ?case
    using Cons.IH universal_newlines_Cons [of x "c @ t"] by simp
qed

lemma universal_newlines_id: "CR \<notin> set t \<Longrightarrow> universal_newlines t = t"
  using universal_newlines_append [of t "[]"] by simp

lemma split_lines_Nil_iff: "split_lines zs = [] \<longleftrightarrow> zs = []"
  by (cases zs) (auto split: list.splits)

lemma split_lines_LF: "split_lines (xs @ LF # ys) = split_lines (xs @ [LF]) @ split_lines ys"
proof (induction xs)
  case Nil
  show ?case by simp
next
  case (Cons x xs)
  obtain l ls where l: "split_lines (xs @ [LF]) = l # ls"
    using split_lines_Nil_iff [of "xs @ [LF]"] by (cases "split_lines (xs @ [LF])") auto
  show ?case using Cons.IH l by simp
qed

lemma split_lines_noLF: "LF \<notin> set t \<Longrightarrow> t \<noteq> [] \<Longrightarrow> split_lines t = [t]"
proof (induction t)
  case Nil
  then show ?case by simp
next
  case (Cons x t)
  show ?case
  proof (cases "t = []")
    case True
    then show ?thesis using Cons.prems by simp
  next
    case False
    then have "split_lines t = [t]" using Cons by simp
    then show ?thesis using Cons.prems by auto
  qed
qed

lemma split_lines_endLF: "LF \<notin> set u \<Longrightarrow> split_lines (u @ [LF]) = [u @ [LF]]"
  by (induction u) auto

lemma split_lines_one:
  assumes "t \<noteq> []" and "LF \<notin> set (butlast t)"
  shows "split_lines t = [t]"
proof (cases "last t = LF")
  case True
  have "t = butlast t @ [LF]" using assms(1) True by (metis append_butlast_last_id)
  then show ?thesis using split_lines_endLF [OF assms(2)] by simp
next
  case False
  have "set t = set (butlast t) \<union> {last t}"
    using assms(1) by (metis append_butlast_last_id set_append list.set(1) list.set(2))
  then have "LF \<notin> set t" using assms(2) False by auto
  then show ?thesis using assms(1) by (rule split_lines_noLF)
qed

lemma file_lines_append_line:
  assumes "CR \<notin> set c" and "CR \<notin> set t" and "t \<noteq> []" and "LF \<notin> set (butlast t)"
  shows "file_lines ((c @ [LF]) @ t) = file_lines (c @ [LF]) @ [t]"
proof -
  have "CR \<notin> set (c @ [LF])" using assms(1) by simp
  then have 1: "universal_newlines ((c @ [LF]) @ t) = (c @ [LF]) @ t"
    and 2: "universal_newlines (c @ [LF]) = c @ [LF]"
    using assms(2) universal_newlines_id [of "(c @ [LF]) @ t"] universal_newlines_id [of "c @ [LF]"]
    by simp_all
  have "split_lines (c @ LF # t) = split_lines (c @ [LF]) @ split_lines t"
    by (rule split_lines_LF)
  then show ?thesis
    unfolding file_lines_def 1 2 using split_lines_one [OF assms(3,4)] by simp
qed

section \<open>The claims\<close>

subsection \<open>C1: the first end-to-end scenario\<close>

text \<open>
  C1 (as stated): parsing the contents \<^verbatim>\<open>"Foo (Nominal):\n       A\tdesc\n       B\tdesc\n"\<close>
  returns exactly one definition, Foo / Nominal / [A, B]. The input ends while Foo is
  still open, and nothing after the loop emits the pending definition: the result is the
  empty list.
\<close>

theorem C1_counterexample:
  "parse_definitions
     (''Foo (Nominal):\<newline>       A'' @ [TAB] @ ''desc\<newline>       B'' @ [TAB] @ ''desc\<newline>'')
   \<noteq> Inr [[(''name'', Str ''Foo''), (''kind'', Str ''Nominal''), (''values'', StrList [''A'', ''B''])]]"
  by code_simp

text \<open>
  C1 (amended): parsing these contents returns no definition, because the input ends
  while Foo is still open. When one more line follows them that is not blank, is not a
  value line and is not a quantitative header (\<^verbatim>\<open>"End\n"\<close> is such a line), the result is
  exactly one definition: name Foo, kind Nominal, values [A, B] in that order.
\<close>

theorem C1_scenario_1:
  "parse_definitions
     (''Foo (Nominal):\<newline>       A'' @ [TAB] @ ''desc\<newline>       B'' @ [TAB] @ ''desc\<newline>'')
   = Inr []
   \<and> (strip t \<noteq> [] \<and> CR \<notin> set t \<and> LF \<notin> set (butlast t)
        \<and> re_match P_VALUE t = None \<and> re_match P_QUANTITATIVE t = None
      \<longrightarrow> parse_definitions
            ((''Foo (Nominal):\<newline>       A'' @ [TAB] @ ''desc\<newline>       B'' @ [TAB] @ ''desc\<newline>'') @ t)
          = Inr [[(''name'', Str ''Foo''), (''kind'', Str ''Nominal''), (''values'', StrList [''A'', ''B''])]])"
proof -
  define c where "c = ''Foo (Nominal):\<newline>       A'' @ [TAB] @ ''desc\<newline>       B'' @ [TAB] @ ''desc''"
  define foo where "foo = [(''name'', Str ''Foo''), (''kind'', Str ''Nominal''), (''values'', StrList [''A'', ''B''])]"
  define s where "s = \<lparr>definitions = [], in_definition = True, vals = [''A'', ''B''],
                         name = Some ''Foo'', kind = Some ''Nominal''\<rparr>"
  have x: "''Foo (Nominal):\<newline>       A'' @ [TAB] @ ''desc\<newline>       B'' @ [TAB] @ ''desc\<newline>'' = c @ [LF]"
    unfolding c_def by simp
  have e: "parse_definitions (c @ [LF]) = Inr []"
    unfolding c_def by code_simp
  have r: "for_lines init_locals (file_lines (c @ [LF])) = Inr s"
    unfolding c_def s_def by code_simp
  have nocr: "CR \<notin> set c" unfolding c_def by code_simp
  have g: "parse_definitions ((c @ [LF]) @ t) = Inr [foo]"
    if t: "strip t \<noteq> [] \<and> CR \<notin> set t \<and> LF \<notin> set (butlast t)
        \<and> re_match P_VALUE t = None \<and> re_match P_QUANTITATIVE t = None"
  proof -
    from t have nb: "strip t \<noteq> []" and tcr: "CR \<notin> set t" and tlf: "LF \<notin> set (butlast t)"
      and nv: "re_match P_VALUE t = None" and nq: "re_match P_QUANTITATIVE t = None"
      by simp_all
    from nb have ne: "t \<noteq> []" by (auto simp: strip_def)
    have f: "file_lines ((c @ [LF]) @ t) = file_lines (c @ [LF]) @ [t]"
      using file_lines_append_line [OF nocr tcr ne tlf] .
    let ?s0 = "s\<lparr>definitions := definitions s @
                      [[(''name'', Str ''Foo''), (''kind'', Str ''Nominal''), (''values'', StrList (vals s))]],
                    in_definition := False, vals := []\<rparr>"
    have o: "in_definition s" and n: "name s = Some ''Foo''" and k: "kind s = Some ''Nominal''"
      unfolding s_def by simp_all
    have b: "loop_body s t = headers ?s0 t"
      using loop_body_end [OF nb o nv n k] .
    have d0: "definitions ?s0 = [foo]" unfolding s_def foo_def by simp
    have "\<exists>s'. headers ?s0 t = Inr s' \<and> definitions s' = [foo]"
    proof (cases "re_match P_QUALITATIVE t")
      case None
      have "headers ?s0 t = Inr ?s0" by (rule headers_neither [OF None nq])
      then show ?thesis using d0 by simp
    next
      case (Some m)
      then obtain nm k' where m: "m = [(''name'', nm), (''kind'', k')]"
        using re_match_qualitative_form by blast
      have "headers ?s0 t = Inr (?s0\<lparr>name := Some (strip nm), kind := Some k', in_definition := True\<rparr>)"
        using headers_qualitative [of t nm k' ?s0] Some m by simp
      then show ?thesis using d0 by simp
    qed
    then obtain s' where h: "headers ?s0 t = Inr s'" and d: "definitions s' = [foo]" by auto
    have "for_lines init_locals (file_lines (c @ [LF]) @ [t]) = Inr s'"
      using r b h by (simp add: for_lines_append)
    then show ?thesis
      using d f by (simp add: parse_definitions_def parse_lines_def)
  qed
  have "parse_definitions (c @ [LF]) = Inr []
   \<and> (strip t \<noteq> [] \<and> CR \<notin> set t \<and> LF \<notin> set (butlast t)
        \<and> re_match P_VALUE t = None \<and> re_match P_QUANTITATIVE t = None
      \<longrightarrow> parse_definitions ((c @ [LF]) @ t) = Inr [foo])"
    using e g by simp
  then show ?thesis unfolding x foo_def .
qed

theorem C1_witness:
  "parse_definitions
     ((''Foo (Nominal):\<newline>       A'' @ [TAB] @ ''desc\<newline>       B'' @ [TAB] @ ''desc\<newline>'') @ ''End\<newline>'')
   = Inr [[(''name'', Str ''Foo''), (''kind'', Str ''Nominal''), (''values'', StrList [''A'', ''B''])]]"
proof -
  have h: "strip ''End\<newline>'' \<noteq> [] \<and> CR \<notin> set ''End\<newline>'' \<and> LF \<notin> set (butlast ''End\<newline>'')
        \<and> re_match P_VALUE ''End\<newline>'' = None \<and> re_match P_QUANTITATIVE ''End\<newline>'' = None"
    by code_simp
  from C1_scenario_1 [of "''End\<newline>''"] have
    "strip ''End\<newline>'' \<noteq> [] \<and> CR \<notin> set ''End\<newline>'' \<and> LF \<notin> set (butlast ''End\<newline>'')
        \<and> re_match P_VALUE ''End\<newline>'' = None \<and> re_match P_QUANTITATIVE ''End\<newline>'' = None
      \<longrightarrow> parse_definitions
            ((''Foo (Nominal):\<newline>       A'' @ [TAB] @ ''desc\<newline>       B'' @ [TAB] @ ''desc\<newline>'') @ ''End\<newline>'')
          = Inr [[(''name'', Str ''Foo''), (''kind'', Str ''Nominal''), (''values'', StrList [''A'', ''B''])]]"
    by (rule conjunct2)
  then show ?thesis using h by (rule mp)
qed

subsection \<open>C2: the input ends while a definition is open\<close>

text \<open>
  C2: let the lines of the file be \<open>pre @ hdr # body\<close>, where \<open>hdr\<close> is read as a qualitative
  header (it matches the header pattern and, if a definition is open when it is read, it
  is not a value line) and every line of \<open>body\<close> is blank or a value line. Then the loop
  ends with the definition of \<open>hdr\<close> still open, holding the values of \<open>body\<close>, and the
  function returns the definitions it had emitted when \<open>hdr\<close> had been read: the pending
  definition is not among them. This holds in both modules.
\<close>

theorem C2_open_definition_dropped:
  "(file_lines contents = pre @ hdr # body
      \<and> for_lines init_locals pre = Inr s
      \<and> (in_definition s \<longrightarrow> re_match P_VALUE hdr = None)
      \<and> re_match P_QUALITATIVE hdr = Some [(''name'', nm), (''kind'', k)]
      \<and> value_lines body
    \<longrightarrow> (\<exists>s1. loop_body s hdr = Inr s1 \<and> in_definition s1
            \<and> name s1 = Some (strip nm) \<and> kind s1 = Some k
            \<and> for_lines init_locals (pre @ hdr # body) = Inr (s1\<lparr>vals := line_values body\<rparr>)
            \<and> parse_definitions contents = Inr (definitions s1)))
   \<and> (file_lines contents = pre @ hdr # body
      \<and> qv_for_lines init_locals pre = Inr s
      \<and> (in_definition s \<longrightarrow> re_match qv_P_VALUE hdr = None)
      \<and> re_match qv_P_QUANTITATIVE hdr = Some [(''name'', nm), (''kind'', k)]
      \<and> value_lines body
    \<longrightarrow> (\<exists>s1. qv_loop_body s hdr = Inr s1 \<and> in_definition s1
            \<and> name s1 = Some (strip nm) \<and> kind s1 = Some k
            \<and> qv_for_lines init_locals (pre @ hdr # body) = Inr (s1\<lparr>vals := line_values body\<rparr>)
            \<and> qv_parse_definitions contents = Inr (definitions s1)))"
proof (intro conjI impI)
  assume a: "file_lines contents = pre @ hdr # body
      \<and> for_lines init_locals pre = Inr s
      \<and> (in_definition s \<longrightarrow> re_match P_VALUE hdr = None)
      \<and> re_match P_QUALITATIVE hdr = Some [(''name'', nm), (''kind'', k)]
      \<and> value_lines body"
  then have "\<exists>s1. loop_body s hdr = Inr s1 \<and> in_definition s1 \<and> name s1 = Some (strip nm)
            \<and> kind s1 = Some k
            \<and> for_lines init_locals (pre @ hdr # body) = Inr (s1\<lparr>vals := line_values body\<rparr>)
            \<and> parse_lines (pre @ hdr # body) = Inr (definitions s1)"
    using parse_lines_open_end [of pre s hdr nm k body] by blast
  then show "\<exists>s1. loop_body s hdr = Inr s1 \<and> in_definition s1
            \<and> name s1 = Some (strip nm) \<and> kind s1 = Some k
            \<and> for_lines init_locals (pre @ hdr # body) = Inr (s1\<lparr>vals := line_values body\<rparr>)
            \<and> parse_definitions contents = Inr (definitions s1)"
    using a by (simp add: parse_definitions_def)
next
  assume a: "file_lines contents = pre @ hdr # body
      \<and> qv_for_lines init_locals pre = Inr s
      \<and> (in_definition s \<longrightarrow> re_match qv_P_VALUE hdr = None)
      \<and> re_match qv_P_QUANTITATIVE hdr = Some [(''name'', nm), (''kind'', k)]
      \<and> value_lines body"
  then have "\<exists>s1. qv_loop_body s hdr = Inr s1 \<and> in_definition s1 \<and> name s1 = Some (strip nm)
            \<and> kind s1 = Some k
            \<and> qv_for_lines init_locals (pre @ hdr # body) = Inr (s1\<lparr>vals := line_values body\<rparr>)
            \<and> qv_parse_lines (pre @ hdr # body) = Inr (definitions s1)"
    using qv_parse_lines_open_end [of pre s hdr nm k body] by (simp add: qv_P_VALUE_eq)
  then show "\<exists>s1. qv_loop_body s hdr = Inr s1 \<and> in_definition s1
            \<and> name s1 = Some (strip nm) \<and> kind s1 = Some k
            \<and> qv_for_lines init_locals (pre @ hdr # body) = Inr (s1\<lparr>vals := line_values body\<rparr>)
            \<and> qv_parse_definitions contents = Inr (definitions s1)"
    using a by (simp add: qv_parse_definitions_def)
qed

theorem C2_witness:
  "file_lines (''Bar (Discrete): y\<newline>Foo (Nominal):\<newline>       A'' @ [TAB] @ ''desc\<newline>'')
     = [''Bar (Discrete): y\<newline>''] @ ''Foo (Nominal):\<newline>'' # [''       A'' @ [TAB] @ ''desc\<newline>'']
   \<and> re_match P_QUALITATIVE ''Foo (Nominal):\<newline>'' = Some [(''name'', ''Foo ''), (''kind'', ''Nominal'')]
   \<and> re_match qv_P_QUANTITATIVE ''Foo (Nominal):\<newline>'' = Some [(''name'', ''Foo ''), (''kind'', ''Nominal'')]
   \<and> value_lines [''       A'' @ [TAB] @ ''desc\<newline>'']
   \<and> parse_definitions (''Bar (Discrete): y\<newline>Foo (Nominal):\<newline>       A'' @ [TAB] @ ''desc\<newline>'')
     = Inr [[(''name'', Str ''Bar''), (''kind'', Str ''Discrete'')]]
   \<and> qv_parse_definitions (''Bar (Discrete): y\<newline>Foo (Nominal):\<newline>       A'' @ [TAB] @ ''desc\<newline>'')
     = Inr []"
proof -
  let ?c = "''Bar (Discrete): y\<newline>Foo (Nominal):\<newline>       A'' @ [TAB] @ ''desc\<newline>''"
  let ?pre = "[''Bar (Discrete): y\<newline>'']"
  let ?hdr = "''Foo (Nominal):\<newline>''"
  let ?body = "[''       A'' @ [TAB] @ ''desc\<newline>'']"
  let ?s = "\<lparr>definitions = [[(''name'', Str ''Bar''), (''kind'', Str ''Discrete'')]],
             in_definition = False, vals = [], name = Some ''Bar'', kind = Some ''Discrete''\<rparr>"
  have f: "file_lines ?c = ?pre @ ?hdr # ?body" by code_simp
  have p: "for_lines init_locals ?pre = Inr ?s" by code_simp
  have qp: "qv_for_lines init_locals ?pre = Inr init_locals" by code_simp
  have i: "in_definition ?s \<longrightarrow> re_match P_VALUE ?hdr = None" by simp
  have qi: "in_definition init_locals \<longrightarrow> re_match qv_P_VALUE ?hdr = None"
    by (simp add: init_locals_def)
  have h: "re_match P_QUALITATIVE ?hdr = Some [(''name'', ''Foo ''), (''kind'', ''Nominal'')]"
    by code_simp
  have qh: "re_match qv_P_QUANTITATIVE ?hdr = Some [(''name'', ''Foo ''), (''kind'', ''Nominal'')]"
    by code_simp
  have b: "value_lines ?body" unfolding value_lines_def by code_simp
  have 1: "loop_body ?s ?hdr = Inr (?s\<lparr>name := Some ''Foo'', kind := Some ''Nominal'', in_definition := True\<rparr>)"
    by code_simp
  have 2: "qv_loop_body init_locals ?hdr
           = Inr (init_locals\<lparr>name := Some ''Foo'', kind := Some ''Nominal'', in_definition := True\<rparr>)"
    by code_simp
  from C2_open_definition_dropped [of ?c ?pre ?hdr ?body ?s "''Foo ''" "''Nominal''"] f p i h b
  obtain s1 where "loop_body ?s ?hdr = Inr s1" and "parse_definitions ?c = Inr (definitions s1)"
    by blast
  then have r: "parse_definitions ?c = Inr [[(''name'', Str ''Bar''), (''kind'', Str ''Discrete'')]]"
    using 1 by auto
  from C2_open_definition_dropped [of ?c ?pre ?hdr ?body init_locals "''Foo ''" "''Nominal''"] f qp qi qh b
  obtain s1 where "qv_loop_body init_locals ?hdr = Inr s1" and "qv_parse_definitions ?c = Inr (definitions s1)"
    by blast
  then have qr: "qv_parse_definitions ?c = Inr []"
    using 2 by (auto simp: init_locals_def)
  show ?thesis using f h qh b r qr by blast
qed

subsection \<open>C3: a line that ends a definition is read again as a header\<close>

text \<open>
  C3: while a definition is open (\<^verbatim>\<open>in_definition\<close> holds, \<^verbatim>\<open>name\<close> and \<^verbatim>\<open>kind\<close> are bound),
  an iteration on a non-blank line that the value pattern does not match appends the open
  definition with the values accumulated so far, leaves \<^verbatim>\<open>in_definition\<close> false and the
  list of values empty, and then runs the block that tries the two header patterns on the
  same line. So, in that one iteration: a qualitative header opens the next definition; a
  quantitative header has its record appended right after the one just closed; any other
  line leaves no definition open. The third end-to-end scenario returns Foo / Nominal /
  [A] followed by Bar / Discrete.
\<close>

theorem C3_terminator_reexamined:
  "(in_definition s \<and> name s = Some n \<and> kind s = Some k
      \<and> strip line \<noteq> [] \<and> re_match P_VALUE line = None
    \<longrightarrow> loop_body s line
        = headers (s\<lparr>definitions := definitions s @
                      [[(''name'', Str n), (''kind'', Str k), (''values'', StrList (vals s))]],
                    in_definition := False, vals := []\<rparr>) line
      \<and> (\<forall>nm k'. re_match P_QUALITATIVE line = Some [(''name'', nm), (''kind'', k')] \<longrightarrow>
            loop_body s line
            = Inr (s\<lparr>definitions := definitions s @
                      [[(''name'', Str n), (''kind'', Str k), (''values'', StrList (vals s))]],
                    in_definition := True, vals := [],
                    name := Some (strip nm), kind := Some k'\<rparr>))
      \<and> (\<forall>nm k'. re_match P_QUANTITATIVE line = Some [(''name'', nm), (''kind'', k')] \<longrightarrow>
            loop_body s line
            = Inr (s\<lparr>definitions := definitions s @
                      [[(''name'', Str n), (''kind'', Str k), (''values'', StrList (vals s))],
                       [(''name'', Str (strip nm)), (''kind'', Str k')]],
                    in_definition := False, vals := [],
                    name := Some (strip nm), kind := Some k'\<rparr>))
      \<and> (re_match P_QUALITATIVE line = None \<and> re_match P_QUANTITATIVE line = None \<longrightarrow>
            loop_body s line
            = Inr (s\<lparr>definitions := definitions s @
                      [[(''name'', Str n), (''kind'', Str k), (''values'', StrList (vals s))]],
                    in_definition := False, vals := []\<rparr>)))
   \<and> parse_definitions
       (''Foo (Nominal):\<newline>       A'' @ [TAB] @ ''x\<newline>Bar (Discrete): y\<newline>'')
     = Inr [[(''name'', Str ''Foo''), (''kind'', Str ''Nominal''), (''values'', StrList [''A''])],
            [(''name'', Str ''Bar''), (''kind'', Str ''Discrete'')]]"
proof -
  let ?s0 = "s\<lparr>definitions := definitions s @
                      [[(''name'', Str n), (''kind'', Str k), (''values'', StrList (vals s))]],
                    in_definition := False, vals := []\<rparr>"
  have e: "loop_body s line = headers ?s0 line"
    if "in_definition s \<and> name s = Some n \<and> kind s = Some k
      \<and> strip line \<noteq> [] \<and> re_match P_VALUE line = None"
    using that loop_body_end [of line s n k] by blast
  have q: "headers ?s0 line
            = Inr (s\<lparr>definitions := definitions s @
                      [[(''name'', Str n), (''kind'', Str k), (''values'', StrList (vals s))]],
                    in_definition := True, vals := [],
                    name := Some (strip nm), kind := Some k'\<rparr>)"
    if "re_match P_QUALITATIVE line = Some [(''name'', nm), (''kind'', k')]" for nm k'
    using headers_qualitative [OF that, of ?s0] by simp
  have r: "headers ?s0 line
            = Inr (s\<lparr>definitions := definitions s @
                      [[(''name'', Str n), (''kind'', Str k), (''values'', StrList (vals s))],
                       [(''name'', Str (strip nm)), (''kind'', Str k')]],
                    in_definition := False, vals := [],
                    name := Some (strip nm), kind := Some k'\<rparr>)"
    if "re_match P_QUANTITATIVE line = Some [(''name'', nm), (''kind'', k')]" for nm k'
    using headers_quantitative [OF that, of ?s0] by simp
  have o: "headers ?s0 line = Inr ?s0"
    if "re_match P_QUALITATIVE line = None \<and> re_match P_QUANTITATIVE line = None"
    using that headers_neither [of line ?s0] by blast
  have x: "parse_definitions
       (''Foo (Nominal):\<newline>       A'' @ [TAB] @ ''x\<newline>Bar (Discrete): y\<newline>'')
     = Inr [[(''name'', Str ''Foo''), (''kind'', Str ''Nominal''), (''values'', StrList [''A''])],
            [(''name'', Str ''Bar''), (''kind'', Str ''Discrete'')]]"
    by code_simp
  show ?thesis
  proof (intro conjI impI allI)
    assume a: "in_definition s \<and> name s = Some n \<and> kind s = Some k
      \<and> strip line \<noteq> [] \<and> re_match P_VALUE line = None"
    show "loop_body s line = headers ?s0 line" using e [OF a] .
  next
    fix nm k'
    assume a: "in_definition s \<and> name s = Some n \<and> kind s = Some k
      \<and> strip line \<noteq> [] \<and> re_match P_VALUE line = None"
      and h: "re_match P_QUALITATIVE line = Some [(''name'', nm), (''kind'', k')]"
    show "loop_body s line
            = Inr (s\<lparr>definitions := definitions s @
                      [[(''name'', Str n), (''kind'', Str k), (''values'', StrList (vals s))]],
                    in_definition := True, vals := [],
                    name := Some (strip nm), kind := Some k'\<rparr>)"
      using e [OF a] q [OF h] by simp
  next
    fix nm k'
    assume a: "in_definition s \<and> name s = Some n \<and> kind s = Some k
      \<and> strip line \<noteq> [] \<and> re_match P_VALUE line = None"
      and h: "re_match P_QUANTITATIVE line = Some [(''name'', nm), (''kind'', k')]"
    show "loop_body s line
            = Inr (s\<lparr>definitions := definitions s @
                      [[(''name'', Str n), (''kind'', Str k), (''values'', StrList (vals s))],
                       [(''name'', Str (strip nm)), (''kind'', Str k')]],
                    in_definition := False, vals := [],
                    name := Some (strip nm), kind := Some k'\<rparr>)"
      using e [OF a] r [OF h] by simp
  next
    assume a: "in_definition s \<and> name s = Some n \<and> kind s = Some k
      \<and> strip line \<noteq> [] \<and> re_match P_VALUE line = None"
      and h: "re_match P_QUALITATIVE line = None \<and> re_match P_QUANTITATIVE line = None"
    show "loop_body s line = Inr ?s0"
      using e [OF a] o [OF h] by simp
  next
    show "parse_definitions
       (''Foo (Nominal):\<newline>       A'' @ [TAB] @ ''x\<newline>Bar (Discrete): y\<newline>'')
     = Inr [[(''name'', Str ''Foo''), (''kind'', Str ''Nominal''), (''values'', StrList [''A''])],
            [(''name'', Str ''Bar''), (''kind'', Str ''Discrete'')]]"
      using x .
  qed
qed

theorem C3_witness:
  "loop_body \<lparr>definitions = [], in_definition = True, vals = [''A''],
              name = Some ''Foo'', kind = Some ''Nominal''\<rparr> ''Bar (Ordinal): y\<newline>''
   = Inr \<lparr>definitions = [[(''name'', Str ''Foo''), (''kind'', Str ''Nominal''), (''values'', StrList [''A''])]],
          in_definition = True, vals = [], name = Some ''Bar'', kind = Some ''Ordinal''\<rparr>"
proof -
  let ?s = "\<lparr>definitions = [], in_definition = True, vals = [''A''],
              name = Some ''Foo'', kind = Some ''Nominal''\<rparr>"
  let ?l = "''Bar (Ordinal): y\<newline>''"
  have a: "in_definition ?s \<and> name ?s = Some ''Foo'' \<and> kind ?s = Some ''Nominal''
      \<and> strip ?l \<noteq> [] \<and> re_match P_VALUE ?l = None"
    by code_simp
  have h: "re_match P_QUALITATIVE ?l = Some [(''name'', ''Bar ''), (''kind'', ''Ordinal'')]"
    by code_simp
  have n: "strip ''Bar '' = ''Bar''" by code_simp
  from C3_terminator_reexamined [of ?s "''Foo''" "''Nominal''" ?l] a h
  have "loop_body ?s ?l
        = Inr (?s\<lparr>definitions := definitions ?s @
                      [[(''name'', Str ''Foo''), (''kind'', Str ''Nominal''), (''values'', StrList (vals ?s))]],
                    in_definition := True, vals := [],
                    name := Some (strip ''Bar ''), kind := Some ''Ordinal''\<rparr>)"
    by blast
  then show ?thesis unfolding n by simp
qed

subsection \<open>C4: value lines\<close>

text \<open>
  C4 (as stated): while a definition is open, a non-blank line is a value line if and only
  if it begins with exactly seven spaces and has a tab after them; any other line, with
  fewer or more leading spaces, ends the definition. The pattern asks for seven spaces and
  then one or more characters other than a tab, so an eighth space belongs to the value
  (and is stripped from it), and a tab right after the seven spaces does not match.
\<close>

theorem C4_counterexample:
  "parse_definitions (''Foo (Nominal):\<newline>        A'' @ [TAB] @ ''desc\<newline>End\<newline>'')
     = Inr [[(''name'', Str ''Foo''), (''kind'', Str ''Nominal''), (''values'', StrList [''A''])]]
   \<and> parse_definitions (''Foo (Nominal):\<newline>       '' @ [TAB] @ ''desc\<newline>End\<newline>'')
     = Inr [[(''name'', Str ''Foo''), (''kind'', Str ''Nominal''), (''values'', StrList [])]]"
  by code_simp

text \<open>
  C4 (amended): while a definition is open, a non-blank line is appended as a value if and
  only if its first seven characters are spaces, it has an eighth character that is not a
  tab, and a tab occurs in it; the appended value is the text between position 7 and the
  first tab, stripped. Any other non-blank line ends the open definition: the definition
  is appended with the values accumulated so far, and the list of values is empty again.
\<close>

theorem C4_value_lines:
  "in_definition s \<and> name s = Some n \<and> kind s = Some k \<and> strip line \<noteq> []
   \<longrightarrow> (take 7 line = replicate 7 SPC \<and> 7 < length line \<and> line ! 7 \<noteq> TAB \<and> TAB \<in> set line
        \<longrightarrow> loop_body s line
            = Inr (s\<lparr>vals := vals s @ [strip (drop 7 (takeWhile (\<lambda>c. c \<noteq> TAB) line))]\<rparr>))
     \<and> (\<not> (take 7 line = replicate 7 SPC \<and> 7 < length line \<and> line ! 7 \<noteq> TAB \<and> TAB \<in> set line)
        \<longrightarrow> (\<exists>s' ds. loop_body s line = Inr s'
              \<and> definitions s'
                = definitions s @
                  [(''name'', Str n), (''kind'', Str k), (''values'', StrList (vals s))] # ds
              \<and> vals s' = []))"
proof (intro impI conjI)
  assume a: "in_definition s \<and> name s = Some n \<and> kind s = Some k \<and> strip line \<noteq> []"
    and v: "take 7 line = replicate 7 SPC \<and> 7 < length line \<and> line ! 7 \<noteq> TAB \<and> TAB \<in> set line"
  from v have "re_match P_VALUE line \<noteq> None" using re_match_value_iff [of line] by blast
  then show "loop_body s line
            = Inr (s\<lparr>vals := vals s @ [strip (drop 7 (takeWhile (\<lambda>c. c \<noteq> TAB) line))]\<rparr>)"
    using a loop_body_value [of line s] by blast
next
  assume a: "in_definition s \<and> name s = Some n \<and> kind s = Some k \<and> strip line \<noteq> []"
    and v: "\<not> (take 7 line = replicate 7 SPC \<and> 7 < length line \<and> line ! 7 \<noteq> TAB \<and> TAB \<in> set line)"
  from v have nv: "re_match P_VALUE line = None" using re_match_value_iff [of line] by blast
  let ?s0 = "s\<lparr>definitions := definitions s @
                      [[(''name'', Str n), (''kind'', Str k), (''values'', StrList (vals s))]],
                    in_definition := False, vals := []\<rparr>"
  have e: "loop_body s line = headers ?s0 line"
    using a nv loop_body_end [of line s n k] by blast
  have "\<not> in_definition ?s0" and "vals ?s0 = []" by simp_all
  from headers_ok [OF this, of line] obtain s' ds where
    h: "headers ?s0 line = Inr s'" and d: "definitions s' = definitions ?s0 @ ds"
    by blast
  have "vals s' = []" using headers_vals [OF h] by simp
  then show "\<exists>s' ds. loop_body s line = Inr s'
              \<and> definitions s'
                = definitions s @
                  [(''name'', Str n), (''kind'', Str k), (''values'', StrList (vals s))] # ds
              \<and> vals s' = []"
    using e h d by simp
qed

theorem C4_witness:
  "loop_body \<lparr>definitions = [], in_definition = True, vals = [''A''],
              name = Some ''Foo'', kind = Some ''Nominal''\<rparr> (''         B  '' @ [TAB] @ ''desc\<newline>'')
   = Inr \<lparr>definitions = [], in_definition = True, vals = [''A'', ''B''],
          name = Some ''Foo'', kind = Some ''Nominal''\<rparr>
   \<and> (\<exists>s' ds. loop_body \<lparr>definitions = [], in_definition = True, vals = [''A''],
              name = Some ''Foo'', kind = Some ''Nominal''\<rparr> (''   B'' @ [TAB] @ ''desc\<newline>'') = Inr s'
        \<and> definitions s' = [(''name'', Str ''Foo''), (''kind'', Str ''Nominal''), (''values'', StrList [''A''])] # ds
        \<and> vals s' = [])"
proof -
  let ?s = "\<lparr>definitions = [], in_definition = True, vals = [''A''],
              name = Some ''Foo'', kind = Some ''Nominal''\<rparr>"
  let ?l = "''         B  '' @ [TAB] @ ''desc\<newline>''"
  let ?m = "''   B'' @ [TAB] @ ''desc\<newline>''"
  have a: "in_definition ?s \<and> name ?s = Some ''Foo'' \<and> kind ?s = Some ''Nominal'' \<and> strip ?l \<noteq> []"
    by code_simp
  have v: "take 7 ?l = replicate 7 SPC \<and> 7 < length ?l \<and> ?l ! 7 \<noteq> TAB \<and> TAB \<in> set ?l"
    by code_simp
  have x: "strip (drop 7 (takeWhile (\<lambda>c. c \<noteq> TAB) ?l)) = ''B''"
    by code_simp
  from C4_value_lines [of ?s "''Foo''" "''Nominal''" ?l] a v
  have "loop_body ?s ?l = Inr (?s\<lparr>vals := vals ?s @ [strip (drop 7 (takeWhile (\<lambda>c. c \<noteq> TAB) ?l))]\<rparr>)"
    by blast
  then have 1: "loop_body ?s ?l = Inr \<lparr>definitions = [], in_definition = True, vals = [''A'', ''B''],
          name = Some ''Foo'', kind = Some ''Nominal''\<rparr>"
    unfolding x by simp
  have b: "in_definition ?s \<and> name ?s = Some ''Foo'' \<and> kind ?s = Some ''Nominal'' \<and> strip ?m \<noteq> []"
    by code_simp
  have w: "\<not> (take 7 ?m = replicate 7 SPC \<and> 7 < length ?m \<and> ?m ! 7 \<noteq> TAB \<and> TAB \<in> set ?m)"
    by code_simp
  from C4_value_lines [of ?s "''Foo''" "''Nominal''" ?m] b w
  have 2: "\<exists>s' ds. loop_body ?s ?m = Inr s'
        \<and> definitions s' = definitions ?s @ [(''name'', Str ''Foo''), (''kind'', Str ''Nominal''), (''values'', StrList (vals ?s))] # ds
        \<and> vals s' = []"
    by blast
  show ?thesis using 1 2 by simp
qed

subsection \<open>C5: header lines\<close>

lemma header_patterns_recognize:
  assumes "nm \<noteq> []" and "CHR ''('' \<notin> set nm" and "\<forall>c\<in>set ws. isspace c"
  shows "k = ''Nominal'' \<or> k = ''Ordinal'' \<Longrightarrow>
           re_match P_QUALITATIVE (nm @ CHR ''('' # k @ CHR '')'' # ws @ CHR '':'' # rest)
             = Some [(''name'', nm), (''kind'', k)]"
    and "k = ''Discrete'' \<or> k = ''Continuous'' \<Longrightarrow>
           re_match P_QUANTITATIVE (nm @ CHR ''('' # k @ CHR '')'' # ws @ CHR '':'' # rest)
             = Some [(''name'', nm), (''kind'', k)]"
    and "k = ''Nominal'' \<or> k = ''Ordinal'' \<Longrightarrow>
           re_match qv_P_QUANTITATIVE (nm @ CHR ''('' # k @ CHR '')'' # CHR '':'' # rest)
             = Some [(''name'', nm), (''kind'', k)]"
proof -
  have n: "\<not> kw_colon k1 sp (k2 @ r)" if "k1 \<noteq> []" "k2 \<noteq> []" "hd k1 \<noteq> hd k2" for k1 k2 sp r
    using kw_colon_hd [of k1 sp "k2 @ r"] that by auto
  show "k = ''Nominal'' \<or> k = ''Ordinal'' \<Longrightarrow>
           re_match P_QUALITATIVE (nm @ CHR ''('' # k @ CHR '')'' # ws @ CHR '':'' # rest)
             = Some [(''name'', nm), (''kind'', k)]"
    using header_match_complete [OF assms, of True k "''Nominal''" "''Ordinal''" rest]
      n [of "''Nominal''" "''Ordinal''" True "CHR '')'' # ws @ CHR '':'' # rest"]
    by (auto simp: P_QUALITATIVE_header)
  show "k = ''Discrete'' \<or> k = ''Continuous'' \<Longrightarrow>
           re_match P_QUANTITATIVE (nm @ CHR ''('' # k @ CHR '')'' # ws @ CHR '':'' # rest)
             = Some [(''name'', nm), (''kind'', k)]"
    using header_match_complete [OF assms, of True k "''Discrete''" "''Continuous''" rest]
      n [of "''Discrete''" "''Continuous''" True "CHR '')'' # ws @ CHR '':'' # rest"]
    by (auto simp: P_QUANTITATIVE_header)
  have e: "\<forall>c\<in>set ([]::string). isspace c" by simp
  show "k = ''Nominal'' \<or> k = ''Ordinal'' \<Longrightarrow>
           re_match qv_P_QUANTITATIVE (nm @ CHR ''('' # k @ CHR '')'' # CHR '':'' # rest)
             = Some [(''name'', nm), (''kind'', k)]"
    using header_match_complete [OF assms(1,2) e, of False k "''Nominal''" "''Ordinal''" rest]
      n [of "''Nominal''" "''Ordinal''" False "CHR '')'' # CHR '':'' # rest"]
    by (auto simp: qv_P_QUANTITATIVE_header)
qed

text \<open>
  C5: a header line is a non-empty text without \<^verbatim>\<open>(\<close>, then \<^verbatim>\<open>(\<close>, a kind keyword, \<^verbatim>\<open>)\<close>,
  optional whitespace, \<^verbatim>\<open>:\<close> and any text; both modules are to recognise it. The patterns
  of \<^verbatim>\<open>parse_variables.py\<close> do (\<open>header_patterns_recognize\<close>). The pattern of
  \<^verbatim>\<open>qualitative_variables.py\<close> has no \<^verbatim>\<open>\s*\<close> before the colon: on \<^verbatim>\<open>"Foo (Nominal) :\n"\<close> it
  finds no header where its sibling does, and the definition is lost.
\<close>

theorem C5_whitespace_before_colon:
  "re_match P_QUALITATIVE ''Foo (Nominal) :\<newline>'' = Some [(''name'', ''Foo ''), (''kind'', ''Nominal'')]
   \<and> re_match qv_P_QUANTITATIVE ''Foo (Nominal) :\<newline>'' = None
   \<and> parse_definitions (''Foo (Nominal) :\<newline>       A'' @ [TAB] @ ''x\<newline>End\<newline>'')
     = Inr [[(''name'', Str ''Foo''), (''kind'', Str ''Nominal''), (''values'', StrList [''A''])]]
   \<and> qv_parse_definitions (''Foo (Nominal) :\<newline>       A'' @ [TAB] @ ''x\<newline>End\<newline>'') = Inr []"
  by code_simp

subsection \<open>C6: the records and their kinds\<close>

text \<open>
  C6: \<^verbatim>\<open>parse_definitions\<close> returns a list, and every record of it has a name and a kind
  that is one of the four keywords. When the kind is Nominal or Ordinal the record has a
  \<^verbatim>\<open>'values'\<close> key bound to a list, and that list holds the values of the value lines that
  follow the record's header in the file, in their order, repeated when they repeat
  (\<open>qualitative_in\<close>). When the kind is Discrete or Continuous the record has no
  \<^verbatim>\<open>'values'\<close> key.
\<close>

theorem C6_records_by_kind:
  "\<exists>ds. parse_definitions contents = Inr ds
     \<and> (\<forall>d\<in>set ds. \<exists>n k.
           map_of d ''name'' = Some (Str n) \<and> map_of d ''kind'' = Some (Str k)
           \<and> ((k = ''Nominal'' \<or> k = ''Ordinal'')
                \<and> (\<exists>vs. map_of d ''values'' = Some (StrList vs))
                \<and> qualitative_in (file_lines contents) d
              \<or> (k = ''Discrete'' \<or> k = ''Continuous'') \<and> map_of d ''values'' = None))"
proof -
  obtain s where s: "for_lines init_locals (file_lines contents) = Inr s"
    using for_lines_ok [OF locals_ok_init, of "file_lines contents"] by blast
  have p: "pending_ok [] init_locals" by (simp add: pending_ok_def init_locals_def)
  have r: "\<forall>d\<in>set (definitions init_locals). record_ok [] d" by (simp add: init_locals_def)
  from for_lines_records [OF locals_ok_init p r s]
  have all: "\<forall>d\<in>set (definitions s). record_ok (file_lines contents) d" by simp
  have "\<exists>n k. map_of d ''name'' = Some (Str n) \<and> map_of d ''kind'' = Some (Str k)
           \<and> ((k = ''Nominal'' \<or> k = ''Ordinal'')
                \<and> (\<exists>vs. map_of d ''values'' = Some (StrList vs))
                \<and> qualitative_in (file_lines contents) d
              \<or> (k = ''Discrete'' \<or> k = ''Continuous'') \<and> map_of d ''values'' = None)"
    if rec: "record_ok (file_lines contents) d" for d
  proof -
    from rec have
      "(\<exists>n k vs. d = [(''name'', Str n), (''kind'', Str k), (''values'', StrList vs)]
          \<and> (k = ''Nominal'' \<or> k = ''Ordinal'') \<and> qualitative_in (file_lines contents) d)
       \<or> (\<exists>n k. d = [(''name'', Str n), (''kind'', Str k)] \<and> (k = ''Discrete'' \<or> k = ''Continuous''))"
      unfolding record_ok_def .
    then show ?thesis
    proof
      assume "\<exists>n k vs. d = [(''name'', Str n), (''kind'', Str k), (''values'', StrList vs)]
          \<and> (k = ''Nominal'' \<or> k = ''Ordinal'') \<and> qualitative_in (file_lines contents) d"
      then obtain n k vs where
        d: "d = [(''name'', Str n), (''kind'', Str k), (''values'', StrList vs)]"
        and k: "k = ''Nominal'' \<or> k = ''Ordinal''" and q: "qualitative_in (file_lines contents) d"
        by auto
      have m: "map_of d ''name'' = Some (Str n) \<and> map_of d ''kind'' = Some (Str k)
            \<and> map_of d ''values'' = Some (StrList vs)"
        unfolding d by simp
      have "map_of d ''name'' = Some (Str n) \<and> map_of d ''kind'' = Some (Str k)
           \<and> ((k = ''Nominal'' \<or> k = ''Ordinal'')
                \<and> (\<exists>vs. map_of d ''values'' = Some (StrList vs))
                \<and> qualitative_in (file_lines contents) d
              \<or> (k = ''Discrete'' \<or> k = ''Continuous'') \<and> map_of d ''values'' = None)"
        using m k q by simp
      then show ?thesis by (intro exI)
    next
      assume "\<exists>n k. d = [(''name'', Str n), (''kind'', Str k)] \<and> (k = ''Discrete'' \<or> k = ''Continuous'')"
      then obtain n k where
        d: "d = [(''name'', Str n), (''kind'', Str k)]"
        and k: "k = ''Discrete'' \<or> k = ''Continuous''"
        by auto
      have m: "map_of d ''name'' = Some (Str n) \<and> map_of d ''kind'' = Some (Str k)
            \<and> map_of d ''values'' = None"
        unfolding d by simp
      have "map_of d ''name'' = Some (Str n) \<and> map_of d ''kind'' = Some (Str k)
           \<and> ((k = ''Nominal'' \<or> k = ''Ordinal'')
                \<and> (\<exists>vs. map_of d ''values'' = Some (StrList vs))
                \<and> qualitative_in (file_lines contents) d
              \<or> (k = ''Discrete'' \<or> k = ''Continuous'') \<and> map_of d ''values'' = None)"
        using m k by simp
      then show ?thesis by (intro exI)
    qed
  qed
  then have "\<forall>d\<in>set (definitions s). \<exists>n k.
           map_of d ''name'' = Some (Str n) \<and> map_of d ''kind'' = Some (Str k)
           \<and> ((k = ''Nominal'' \<or> k = ''Ordinal'')
                \<and> (\<exists>vs. map_of d ''values'' = Some (StrList vs))
                \<and> qualitative_in (file_lines contents) d
              \<or> (k = ''Discrete'' \<or> k = ''Continuous'') \<and> map_of d ''values'' = None)"
    using all by blast
  moreover have "parse_definitions contents = Inr (definitions s)"
    using s by (simp add: parse_definitions_def parse_lines_def)
  ultimately show ?thesis by blast
qed

theorem C6_witness:
  "parse_definitions
     (''Foo (Nominal):\<newline>       A'' @ [TAB] @ ''x\<newline>       A'' @ [TAB] @ ''y\<newline>Bar (Discrete): z\<newline>'')
   = Inr [[(''name'', Str ''Foo''), (''kind'', Str ''Nominal''), (''values'', StrList [''A'', ''A''])],
          [(''name'', Str ''Bar''), (''kind'', Str ''Discrete'')]]
   \<and> qualitative_in
       (file_lines (''Foo (Nominal):\<newline>       A'' @ [TAB] @ ''x\<newline>       A'' @ [TAB] @ ''y\<newline>Bar (Discrete): z\<newline>''))
       [(''name'', Str ''Foo''), (''kind'', Str ''Nominal''), (''values'', StrList [''A'', ''A''])]"
proof -
  define c where "c = ''Foo (Nominal):\<newline>       A'' @ [TAB] @ ''x\<newline>       A'' @ [TAB] @ ''y\<newline>Bar (Discrete): z\<newline>''"
  define foo where "foo = [(''name'', Str ''Foo''), (''kind'', Str ''Nominal''), (''values'', StrList [''A'', ''A''])]"
  define bar where "bar = [(''name'', Str ''Bar''), (''kind'', Str ''Discrete'')]"
  define good where "good = (\<lambda>d. \<exists>n k.
           map_of d ''name'' = Some (Str n) \<and> map_of d ''kind'' = Some (Str k)
           \<and> ((k = ''Nominal'' \<or> k = ''Ordinal'')
                \<and> (\<exists>vs. map_of d ''values'' = Some (StrList vs))
                \<and> qualitative_in (file_lines c) d
              \<or> (k = ''Discrete'' \<or> k = ''Continuous'') \<and> map_of d ''values'' = None))"
  have e: "parse_definitions c = Inr [foo, bar]"
    unfolding c_def foo_def bar_def by code_simp
  have "\<exists>ds. parse_definitions c = Inr ds \<and> (\<forall>d\<in>set ds. good d)"
    unfolding good_def by (rule C6_records_by_kind)
  then obtain ds where ds: "parse_definitions c = Inr ds" and all: "\<forall>d\<in>set ds. good d"
    by blast
  have "ds = [foo, bar]" using ds e by simp
  then have "good foo" using all by simp
  then have g: "\<exists>n k.
           map_of foo ''name'' = Some (Str n) \<and> map_of foo ''kind'' = Some (Str k)
           \<and> ((k = ''Nominal'' \<or> k = ''Ordinal'')
                \<and> (\<exists>vs. map_of foo ''values'' = Some (StrList vs))
                \<and> qualitative_in (file_lines c) foo
              \<or> (k = ''Discrete'' \<or> k = ''Continuous'') \<and> map_of foo ''values'' = None)"
    unfolding good_def .
  have v: "map_of foo ''values'' \<noteq> None" unfolding foo_def by simp
  have "qualitative_in (file_lines c) foo"
    by (rule first_disjunct [OF g v])
  then have "parse_definitions c = Inr [foo, bar] \<and> qualitative_in (file_lines c) foo"
    using e by simp
  then show ?thesis unfolding c_def foo_def bar_def .
qed

subsection \<open>C7: blank lines\<close>

text \<open>
  C7: a blank line (one that \<^verbatim>\<open>strip()\<close> empties) leaves the local variables of the loop as
  they are, in both modules: it ends no definition and adds no value. So a blank line
  inserted anywhere among the lines, or removed, changes neither the final state nor the
  output, and removing every blank line changes nothing either.
\<close>

theorem C7_blank_lines_skipped:
  assumes "strip b = []"
  shows "loop_body s b = Inr s \<and> qv_loop_body s b = Inr s
       \<and> for_lines s (xs @ b # ys) = for_lines s (xs @ ys)
       \<and> qv_for_lines s (xs @ b # ys) = qv_for_lines s (xs @ ys)
       \<and> parse_lines (xs @ b # ys) = parse_lines (xs @ ys)
       \<and> qv_parse_lines (xs @ b # ys) = qv_parse_lines (xs @ ys)
       \<and> parse_lines (filter (\<lambda>l. strip l \<noteq> []) ls) = parse_lines ls
       \<and> qv_parse_lines (filter (\<lambda>l. strip l \<noteq> []) ls) = qv_parse_lines ls"
  using assms
  by (simp add: loop_body_blank qv_loop_body_blank for_lines_blank qv_for_lines_blank
        parse_lines_def qv_parse_lines_def for_lines_filter qv_for_lines_filter)

theorem C7_witness:
  "strip ('' '' @ [TAB] @ ''\<newline>'') = []
   \<and> parse_lines [''Foo (Nominal):\<newline>'', ''       A'' @ [TAB] @ ''x\<newline>'', '' '' @ [TAB] @ ''\<newline>'',
                  ''       B'' @ [TAB] @ ''y\<newline>'', ''End\<newline>'']
     = Inr [[(''name'', Str ''Foo''), (''kind'', Str ''Nominal''), (''values'', StrList [''A'', ''B''])]]
   \<and> qv_parse_lines [''Foo (Nominal):\<newline>'', ''       A'' @ [TAB] @ ''x\<newline>'', '' '' @ [TAB] @ ''\<newline>'',
                  ''       B'' @ [TAB] @ ''y\<newline>'', ''End\<newline>'']
     = Inr [[(''name'', Str ''Foo''), (''kind'', Str ''Nominal''), (''values'', StrList [''A'', ''B''])]]"
proof -
  have b: "strip ('' '' @ [TAB] @ ''\<newline>'') = []"
    by code_simp
  have e: "parse_lines ([''Foo (Nominal):\<newline>'', ''       A'' @ [TAB] @ ''x\<newline>''] @
                  [''       B'' @ [TAB] @ ''y\<newline>'', ''End\<newline>''])
     = Inr [[(''name'', Str ''Foo''), (''kind'', Str ''Nominal''), (''values'', StrList [''A'', ''B''])]]"
    by code_simp
  have q: "qv_parse_lines ([''Foo (Nominal):\<newline>'', ''       A'' @ [TAB] @ ''x\<newline>''] @
                  [''       B'' @ [TAB] @ ''y\<newline>'', ''End\<newline>''])
     = Inr [[(''name'', Str ''Foo''), (''kind'', Str ''Nominal''), (''values'', StrList [''A'', ''B''])]]"
    by code_simp
  note t = C7_blank_lines_skipped [OF b, of init_locals
      "[''Foo (Nominal):\<newline>'', ''       A'' @ [TAB] @ ''x\<newline>'']"
      "[''       B'' @ [TAB] @ ''y\<newline>'', ''End\<newline>'']" "[]"]
  from t have 1: "parse_lines ([''Foo (Nominal):\<newline>'', ''       A'' @ [TAB] @ ''x\<newline>''] @ ('' '' @ [TAB] @ ''\<newline>'') #
                  [''       B'' @ [TAB] @ ''y\<newline>'', ''End\<newline>''])
      = parse_lines ([''Foo (Nominal):\<newline>'', ''       A'' @ [TAB] @ ''x\<newline>''] @
                  [''       B'' @ [TAB] @ ''y\<newline>'', ''End\<newline>''])"
    by blast
  from t have 2: "qv_parse_lines ([''Foo (Nominal):\<newline>'', ''       A'' @ [TAB] @ ''x\<newline>''] @ ('' '' @ [TAB] @ ''\<newline>'') #
                  [''       B'' @ [TAB] @ ''y\<newline>'', ''End\<newline>''])
      = qv_parse_lines ([''Foo (Nominal):\<newline>'', ''       A'' @ [TAB] @ ''x\<newline>''] @
                  [''       B'' @ [TAB] @ ''y\<newline>'', ''End\<newline>''])"
    by blast
  show ?thesis
    using b 1 2 e q by simp
qed

subsection \<open>C8: the result is a function of the lines\<close>

text \<open>
  C8: the model of \<^verbatim>\<open>parse_definitions\<close> is a function of the contents of the file: the
  source reads no variable that outlives a call (the compiled patterns are constants).
  Within a call, \<^verbatim>\<open>definitions\<close>, \<^verbatim>\<open>in_definition\<close> and \<^verbatim>\<open>values\<close> are assigned before the
  loop, \<^verbatim>\<open>name\<close> and \<^verbatim>\<open>kind\<close> are not. The theorem: on every input the function returns a
  list (it raises nothing), and the loop returns this same list from whatever state
  \<open>prev\<close> the three assignments are made in; what \<^verbatim>\<open>name\<close> and \<^verbatim>\<open>kind\<close> hold when the loop
  starts is never read.
\<close>

theorem C8_deterministic:
  "\<exists>ds. parse_definitions contents = Inr ds
     \<and> (\<forall>prev. then_do (for_lines (prev\<lparr>definitions := [], in_definition := False, vals := []\<rparr>)
                          (file_lines contents))
                  (\<lambda>s. Inr (definitions s)) = Inr ds)"
proof -
  obtain s where s: "for_lines init_locals (file_lines contents) = Inr s"
    using for_lines_ok [OF locals_ok_init, of "file_lines contents"] by blast
  have "then_do (for_lines (prev\<lparr>definitions := [], in_definition := False, vals := []\<rparr>)
                          (file_lines contents))
                  (\<lambda>s. Inr (definitions s)) = Inr (definitions s)" for prev
  proof -
    have "agree init_locals (prev\<lparr>definitions := [], in_definition := False, vals := []\<rparr>)"
      by (simp add: agree_def init_locals_def)
    from for_lines_agree [OF locals_ok_init this, of "file_lines contents"] s
    obtain t where "for_lines (prev\<lparr>definitions := [], in_definition := False, vals := []\<rparr>)
                          (file_lines contents) = Inr t" and "agree s t"
      by auto
    then show ?thesis by (simp add: agree_def)
  qed
  then show ?thesis using s by (simp add: parse_definitions_def parse_lines_def)
qed

subsection \<open>C9: the loader and the two classifiers\<close>

text \<open>
  C9 (as stated): \<^verbatim>\<open>load_variables\<close> keeps the order of the definitions and maps the name of
  each to a record with its kind and, exactly when it has a \<^verbatim>\<open>'values'\<close> key, its values.
  The mapping is an \<^verbatim>\<open>OrderedDict\<close> built from the pairs: when two definitions share a name,
  the second replaces the record of the first. Below, the first definition is Nominal and
  has values; its name is mapped to a record whose kind is Discrete and that has none. A
  dict without a \<^verbatim>\<open>'name'\<close> key, or with a list under it, makes the function raise.
\<close>

theorem C9_counterexample:
  "load_variables
     [[(''name'', Str ''Foo''), (''kind'', Str ''Nominal''), (''values'', StrList [''A''])],
      [(''name'', Str ''Foo''), (''kind'', Str ''Discrete'')]]
   = Inr [(''Foo'', [(''kind'', Str ''Discrete'')])]
   \<and> load_variables [[(''kind'', Str ''Discrete'')]] = Inl (KeyError ''name'')
   \<and> load_variables [[(''name'', StrList [''Foo'']), (''kind'', Str ''Discrete'')]] = Inl TypeError"
  by code_simp

text \<open>
  C9 (amended): for definitions that each have a string under \<^verbatim>\<open>'name'\<close> and a \<^verbatim>\<open>'kind'\<close> key,
  \<^verbatim>\<open>load_variables\<close> returns a mapping whose keys are the names in the order of their first
  occurrence, each mapped to the record (kind and, exactly when the definition has a
  \<^verbatim>\<open>'values'\<close> key, values) of the last definition of that name; when the names are pairwise
  distinct this is the list of the definitions' names and records in the input order.
  \<^verbatim>\<open>is_qualitative(attrs)\<close> returns \<^verbatim>\<open>True\<close> if and only if \<^verbatim>\<open>attrs['kind']\<close> is \<^verbatim>\<open>'Nominal'\<close> or
  \<^verbatim>\<open>'Ordinal'\<close>, \<^verbatim>\<open>is_quantitative(attrs)\<close> if and only if it is \<^verbatim>\<open>'Discrete'\<close> or \<^verbatim>\<open>'Continuous'\<close>.
\<close>

theorem C9_load_variables:
  "(map (\<lambda>d. map_of d ''name'') defs = map (\<lambda>n. Some (Str n)) names
      \<and> (\<forall>d\<in>set defs. map_of d ''kind'' \<noteq> None)
    \<longrightarrow> (\<exists>od. load_variables defs = Inr od
          \<and> map fst od = rev (remdups (rev names))
          \<and> map_of od = map_of (rev (zip names (map expected_attrs defs)))
          \<and> (distinct names \<longrightarrow> od = zip names (map expected_attrs defs))))
   \<and> (is_qualitative attrs = Inr True \<longleftrightarrow>
        map_of attrs ''kind'' = Some (Str ''Nominal'') \<or> map_of attrs ''kind'' = Some (Str ''Ordinal''))
   \<and> (is_quantitative attrs = Inr True \<longleftrightarrow>
        map_of attrs ''kind'' = Some (Str ''Discrete'') \<or> map_of attrs ''kind'' = Some (Str ''Continuous''))"
proof (intro conjI impI)
  assume a: "map (\<lambda>d. map_of d ''name'') defs = map (\<lambda>n. Some (Str n)) names
      \<and> (\<forall>d\<in>set defs. map_of d ''kind'' \<noteq> None)"
  let ?as = "map expected_attrs defs"
  from a have len: "length names = length defs" by (metis length_map)
  have p: "make_pairs defs = Inr (zip (map Str names) ?as)"
    using make_pairs_ok [of defs names] a by blast
  from OrderedDict_strs [of "[]" names ?as] obtain od where
    1: "OrderedDict [] (zip (map Str names) ?as) = Inr od"
    and 2: "map fst od = rev (remdups (rev (map fst (zip names ?as))))"
    and 3: "map_of od = map_of (rev (zip names ?as))"
    by auto
  have f: "map fst (zip names ?as) = names" using len by simp
  have 4: "od = zip names ?as" if "distinct names"
    using OrderedDict_distinct [of names "[]" ?as] that 1 by simp
  have "load_variables defs = Inr od"
    using p 1 by (simp add: load_variables_def)
  then show "\<exists>od. load_variables defs = Inr od
          \<and> map fst od = rev (remdups (rev names))
          \<and> map_of od = map_of (rev (zip names (map expected_attrs defs)))
          \<and> (distinct names \<longrightarrow> od = zip names (map expected_attrs defs))"
    using 2 3 4 f by auto
next
  show "is_qualitative attrs = Inr True \<longleftrightarrow>
        map_of attrs ''kind'' = Some (Str ''Nominal'') \<or> map_of attrs ''kind'' = Some (Str ''Ordinal'')"
    by (rule is_qualitative_True)
next
  show "is_quantitative attrs = Inr True \<longleftrightarrow>
        map_of attrs ''kind'' = Some (Str ''Discrete'') \<or> map_of attrs ''kind'' = Some (Str ''Continuous'')"
    by (rule is_quantitative_True)
qed

theorem C9_witness:
  "load_variables
     [[(''name'', Str ''Foo''), (''kind'', Str ''Nominal''), (''values'', StrList [''A'', ''B''])],
      [(''name'', Str ''Bar''), (''kind'', Str ''Discrete'')]]
   = Inr [(''Foo'', [(''kind'', Str ''Nominal''), (''values'', StrList [''A'', ''B''])]),
          (''Bar'', [(''kind'', Str ''Discrete'')])]"
proof -
  let ?defs = "[[(''name'', Str ''Foo''), (''kind'', Str ''Nominal''), (''values'', StrList [''A'', ''B''])],
      [(''name'', Str ''Bar''), (''kind'', Str ''Discrete'')]]"
  let ?names = "[''Foo'', ''Bar'']"
  have a: "map (\<lambda>d. map_of d ''name'') ?defs = map (\<lambda>n. Some (Str n)) ?names
      \<and> (\<forall>d\<in>set ?defs. map_of d ''kind'' \<noteq> None)"
    by simp
  have d: "distinct ?names" by simp
  have z: "zip ?names (map expected_attrs ?defs)
     = [(''Foo'', [(''kind'', Str ''Nominal''), (''values'', StrList [''A'', ''B''])]),
          (''Bar'', [(''kind'', Str ''Discrete'')])]"
    by (simp add: expected_attrs_def)
  from C9_load_variables [of ?defs ?names "[]"] a d
  obtain od where "load_variables ?defs = Inr od" and "od = zip ?names (map expected_attrs ?defs)"
    by blast
  then show ?thesis unfolding z by simp
qed

subsection \<open>C10: the values of an emitted definition\<close>

text \<open>
  C10: let the lines of the file be \<open>pre @ hdr # body @ t # post\<close>, where \<open>hdr\<close> is read as a
  qualitative header, every line of \<open>body\<close> is blank or a value line, and \<open>t\<close> is a non-blank
  line that is not a value line. Then the function returns, after the definitions it had
  emitted when \<open>hdr\<close> had been read, the definition of \<open>hdr\<close> with a \<^verbatim>\<open>'values'\<close> key bound to
  the values of the value lines of \<open>body\<close>, in their order and nothing else: no value of an
  earlier definition is carried over. When \<open>body\<close> holds blank lines only (or nothing),
  the key is bound to the empty list. This holds in both modules.
\<close>

theorem C10_values_since_header:
  "(file_lines contents = pre @ hdr # body @ t # post
      \<and> for_lines init_locals pre = Inr s
      \<and> (in_definition s \<longrightarrow> re_match P_VALUE hdr = None)
      \<and> re_match P_QUALITATIVE hdr = Some [(''name'', nm), (''kind'', k)]
      \<and> value_lines body \<and> strip t \<noteq> [] \<and> re_match P_VALUE t = None
    \<longrightarrow> (\<exists>s1 ds. loop_body s hdr = Inr s1
            \<and> parse_definitions contents
              = Inr (definitions s1 @
                     [(''name'', Str (strip nm)), (''kind'', Str k), (''values'', StrList (line_values body))] # ds))
       \<and> ((\<forall>l\<in>set body. strip l = []) \<longrightarrow>
            (\<exists>s1 ds. loop_body s hdr = Inr s1
              \<and> parse_definitions contents
                = Inr (definitions s1 @
                       [(''name'', Str (strip nm)), (''kind'', Str k), (''values'', StrList [])] # ds))))
   \<and> (file_lines contents = pre @ hdr # body @ t # post
      \<and> qv_for_lines init_locals pre = Inr s
      \<and> (in_definition s \<longrightarrow> re_match qv_P_VALUE hdr = None)
      \<and> re_match qv_P_QUANTITATIVE hdr = Some [(''name'', nm), (''kind'', k)]
      \<and> value_lines body \<and> strip t \<noteq> [] \<and> re_match qv_P_VALUE t = None
    \<longrightarrow> (\<exists>s1 ds. qv_loop_body s hdr = Inr s1
            \<and> qv_parse_definitions contents
              = Inr (definitions s1 @
                     [(''name'', Str (strip nm)), (''kind'', Str k), (''values'', StrList (line_values body))] # ds))
       \<and> ((\<forall>l\<in>set body. strip l = []) \<longrightarrow>
            (\<exists>s1 ds. qv_loop_body s hdr = Inr s1
              \<and> qv_parse_definitions contents
                = Inr (definitions s1 @
                       [(''name'', Str (strip nm)), (''kind'', Str k), (''values'', StrList [])] # ds))))"
proof -
  let ?A = "file_lines contents = pre @ hdr # body @ t # post
      \<and> for_lines init_locals pre = Inr s
      \<and> (in_definition s \<longrightarrow> re_match P_VALUE hdr = None)
      \<and> re_match P_QUALITATIVE hdr = Some [(''name'', nm), (''kind'', k)]
      \<and> value_lines body \<and> strip t \<noteq> [] \<and> re_match P_VALUE t = None"
  let ?B = "file_lines contents = pre @ hdr # body @ t # post
      \<and> qv_for_lines init_locals pre = Inr s
      \<and> (in_definition s \<longrightarrow> re_match qv_P_VALUE hdr = None)
      \<and> re_match qv_P_QUANTITATIVE hdr = Some [(''name'', nm), (''kind'', k)]
      \<and> value_lines body \<and> strip t \<noteq> [] \<and> re_match qv_P_VALUE t = None"
  have pv: "\<exists>s1 ds. loop_body s hdr = Inr s1
            \<and> parse_definitions contents
              = Inr (definitions s1 @
                     [(''name'', Str (strip nm)), (''kind'', Str k), (''values'', StrList (line_values body))] # ds)"
    if a: ?A
    using parse_lines_emits [of pre s hdr nm k body t post] a
    by (simp add: parse_definitions_def)
  have qv: "\<exists>s1 ds. qv_loop_body s hdr = Inr s1
            \<and> qv_parse_definitions contents
              = Inr (definitions s1 @
                     [(''name'', Str (strip nm)), (''kind'', Str k), (''values'', StrList (line_values body))] # ds)"
    if a: ?B
    using qv_parse_lines_emits [of pre s hdr nm k body t post] a
    by (simp add: qv_parse_definitions_def qv_P_VALUE_eq)
  have e: "line_values body = []" if "\<forall>l\<in>set body. strip l = []"
    using that by (rule line_values_all_blank)
  show ?thesis
  proof (intro conjI impI)
    assume a: ?A
    show "\<exists>s1 ds. loop_body s hdr = Inr s1
            \<and> parse_definitions contents
              = Inr (definitions s1 @
                     [(''name'', Str (strip nm)), (''kind'', Str k), (''values'', StrList (line_values body))] # ds)"
      using pv [OF a] .
  next
    assume a: ?A and bl: "\<forall>l\<in>set body. strip l = []"
    show "\<exists>s1 ds. loop_body s hdr = Inr s1
            \<and> parse_definitions contents
              = Inr (definitions s1 @
                     [(''name'', Str (strip nm)), (''kind'', Str k), (''values'', StrList [])] # ds)"
      using pv [OF a] e [OF bl] by simp
  next
    assume a: ?B
    show "\<exists>s1 ds. qv_loop_body s hdr = Inr s1
            \<and> qv_parse_definitions contents
              = Inr (definitions s1 @
                     [(''name'', Str (strip nm)), (''kind'', Str k), (''values'', StrList (line_values body))] # ds)"
      using qv [OF a] .
  next
    assume a: ?B and bl: "\<forall>l\<in>set body. strip l = []"
    show "\<exists>s1 ds. qv_loop_body s hdr = Inr s1
            \<and> qv_parse_definitions contents
              = Inr (definitions s1 @
                     [(''name'', Str (strip nm)), (''kind'', Str k), (''values'', StrList [])] # ds)"
      using qv [OF a] e [OF bl] by simp
  qed
qed

theorem C10_witness:
  "file_lines (''Foo (Nominal):\<newline>\<newline>Bar (Ordinal):\<newline>       A'' @ [TAB] @ ''x\<newline>End\<newline>'')
     = [] @ ''Foo (Nominal):\<newline>'' # [''\<newline>''] @ ''Bar (Ordinal):\<newline>''
          # [''       A'' @ [TAB] @ ''x\<newline>'', ''End\<newline>'']
   \<and> value_lines [''\<newline>'']
   \<and> (\<exists>ds. parse_definitions (''Foo (Nominal):\<newline>\<newline>Bar (Ordinal):\<newline>       A'' @ [TAB] @ ''x\<newline>End\<newline>'')
     = Inr ([(''name'', Str ''Foo''), (''kind'', Str ''Nominal''), (''values'', StrList [])] # ds))
   \<and> (\<exists>ds. qv_parse_definitions (''Foo (Nominal):\<newline>\<newline>Bar (Ordinal):\<newline>       A'' @ [TAB] @ ''x\<newline>End\<newline>'')
     = Inr ([(''name'', Str ''Foo''), (''kind'', Str ''Nominal''), (''values'', StrList [])] # ds))"
proof -
  let ?c = "''Foo (Nominal):\<newline>\<newline>Bar (Ordinal):\<newline>       A'' @ [TAB] @ ''x\<newline>End\<newline>''"
  let ?hdr = "''Foo (Nominal):\<newline>''"
  let ?body = "[''\<newline>'']"
  let ?t = "''Bar (Ordinal):\<newline>''"
  let ?post = "[''       A'' @ [TAB] @ ''x\<newline>'', ''End\<newline>'']"
  have f: "file_lines ?c = [] @ ?hdr # ?body @ ?t # ?post" by code_simp
  have p: "for_lines init_locals [] = Inr init_locals" by simp
  have qp: "qv_for_lines init_locals [] = Inr init_locals" by simp
  have i: "in_definition init_locals \<longrightarrow> re_match P_VALUE ?hdr = None"
    by (simp add: init_locals_def)
  have qi: "in_definition init_locals \<longrightarrow> re_match qv_P_VALUE ?hdr = None"
    by (simp add: init_locals_def)
  have h: "re_match P_QUALITATIVE ?hdr = Some [(''name'', ''Foo ''), (''kind'', ''Nominal'')]"
    by code_simp
  have qh: "re_match qv_P_QUANTITATIVE ?hdr = Some [(''name'', ''Foo ''), (''kind'', ''Nominal'')]"
    by code_simp
  have b: "value_lines ?body" unfolding value_lines_def by code_simp
  have bl: "\<forall>l\<in>set ?body. strip l = []" by code_simp
  have t1: "strip ?t \<noteq> []" by code_simp
  have t2: "re_match P_VALUE ?t = None" by code_simp
  have qt2: "re_match qv_P_VALUE ?t = None" by code_simp
  have n: "strip ''Foo '' = ''Foo''" by code_simp
  have 1: "loop_body init_locals ?hdr
           = Inr (init_locals\<lparr>name := Some ''Foo'', kind := Some ''Nominal'', in_definition := True\<rparr>)"
    by code_simp
  have 2: "qv_loop_body init_locals ?hdr
           = Inr (init_locals\<lparr>name := Some ''Foo'', kind := Some ''Nominal'', in_definition := True\<rparr>)"
    by code_simp
  from C10_values_since_header [of ?c "[]" ?hdr ?body ?t ?post init_locals "''Foo ''" "''Nominal''"]
    f p i h b bl t1 t2
  obtain s1 ds where "loop_body init_locals ?hdr = Inr s1"
    and "parse_definitions ?c = Inr (definitions s1 @
           [(''name'', Str (strip ''Foo '')), (''kind'', Str ''Nominal''), (''values'', StrList [])] # ds)"
    by blast
  then have r: "\<exists>ds. parse_definitions ?c
      = Inr ([(''name'', Str ''Foo''), (''kind'', Str ''Nominal''), (''values'', StrList [])] # ds)"
    using 1 n by (auto simp: init_locals_def)
  from C10_values_since_header [of ?c "[]" ?hdr ?body ?t ?post init_locals "''Foo ''" "''Nominal''"]
    f qp qi qh b bl t1 qt2
  obtain s1 ds where "qv_loop_body init_locals ?hdr = Inr s1"
    and "qv_parse_definitions ?c = Inr (definitions s1 @
           [(''name'', Str (strip ''Foo '')), (''kind'', Str ''Nominal''), (''values'', StrList [])] # ds)"
    by blast
  then have qr: "\<exists>ds. qv_parse_definitions ?c
      = Inr ([(''name'', Str ''Foo''), (''kind'', Str ''Nominal''), (''values'', StrList [])] # ds)"
    using 2 n by (auto simp: init_locals_def)
  show ?thesis using f b r qr by blast
qed

end
